theory Spec2Isabelle
  imports Main "HOL-Library.Signed_Division"
begin

section \<open>Types and configuration (main.cpp, lines 15-84)\<close>

text \<open>
  The program is a terminal game: hostile entities (\<open>Enemy\<close>) descend, the player fires
  interceptors (\<open>Rocket\<close>) from a battery of \<open>k\<close> launchers, and the main loop decides
  the match. All of it lives in \<^verbatim>\<open>src/main.cpp\<close>.

  C++ \<open>int\<close> is modelled as \<open>int\<close>: every counter is bounded by the number of enemies
  (at most 25 in the presets), every coordinate by the screen size, and an identifier
  grows by one per spawn or fire, so no value comes near \<open>2^31\<close>. Division is the
  truncating division of C++ (\<open>sdiv\<close>).

  Both structs have fields \<open>id\<close>, \<open>x\<close>, \<open>y\<close>; the record fields carry the prefix
  \<open>e_\<close> or \<open>r_\<close> to keep them apart (\<open>id\<close> is also the identity function of HOL).
  The thread handle \<open>tid\<close> is not modelled: the threads themselves are part of the
  state of the system below, and the two loops that store a handle (lines 296 and 411)
  change nothing else.
\<close>

datatype Aim = AIM_UP | AIM_UPLEFT | AIM_UPRIGHT | AIM_LEFT | AIM_RIGHT

record Enemy =
  e_id :: int
  e_x :: int
  e_y :: int
  alive :: bool

record Rocket =
  r_id :: int
  r_x :: int
  r_y :: int
  aim :: Aim
  active :: bool

record DifficultySettings =
  k_launchers :: int
  m_enemies :: int
  enemy_step_ms :: int
  reload_time_ms :: int
  spawn_interval_ms :: int

definition EASY :: DifficultySettings where
  "EASY = \<lparr>k_launchers = 3, m_enemies = 12, enemy_step_ms = 700,
            reload_time_ms = 1200, spawn_interval_ms = 900\<rparr>"

definition MEDIUM :: DifficultySettings where
  "MEDIUM = \<lparr>k_launchers = 5, m_enemies = 18, enemy_step_ms = 450,
              reload_time_ms = 800, spawn_interval_ms = 600\<rparr>"

definition HARD :: DifficultySettings where
  "HARD = \<lparr>k_launchers = 8, m_enemies = 25, enemy_step_ms = 250,
            reload_time_ms = 350, spawn_interval_ms = 300\<rparr>"

text \<open>
  What \<open>main\<close> fixes before it starts a thread (lines 458-487): the screen size, raised
  to at least 20 by 60, and the preset chosen in the menu (1, 2, anything else).
\<close>

record config =
  SCREEN_H :: int
  SCREEN_W :: int
  settings :: DifficultySettings

definition chooseSettings :: "int \<Rightarrow> DifficultySettings" where
  "chooseSettings choice =
     (if choice = 1 then EASY else if choice = 2 then MEDIUM else HARD)"

definition mkConfig :: "int \<Rightarrow> int \<Rightarrow> int \<Rightarrow> config" where
  "mkConfig h w choice =
     \<lparr>SCREEN_H = (if h < 20 then 20 else h),
      SCREEN_W = (if w < 60 then 60 else w),
      settings = chooseSettings choice\<rparr>"

section \<open>The match controller (main, lines 503-553)\<close>

text \<open>
  The two messages the main loop can print. The list of messages printed so far stands
  for the screen.
\<close>

datatype outcome = YOU_WIN | YOU_LOSE

text \<open>Line 532: is any enemy record alive? The loop stops at the first one.\<close>

fun anyAlive :: "Enemy list \<Rightarrow> bool" where
  "anyAlive [] = False"
| "anyAlive (e # es) = (if alive e then True else anyAlive es)"

text \<open>
  Lines 511-527: the two threshold tests, victory first. \<open>None\<close>: neither holds and the
  loop body goes on to line 529.
\<close>

definition thresholds :: "int \<Rightarrow> int \<Rightarrow> int \<Rightarrow> outcome option" where
  "thresholds m destroyed ground =
     (if destroyed \<ge> (m + 1) sdiv 2 then Some YOU_WIN
      else if ground > m sdiv 2 then Some YOU_LOSE
      else None)"

text \<open>Lines 536-546: the decision once spawning is over and nobody is alive.\<close>

definition finalCount :: "int \<Rightarrow> int \<Rightarrow> outcome" where
  "finalCount m destroyed =
     (if destroyed \<ge> (m + 1) sdiv 2 then YOU_WIN else YOU_LOSE)"

text \<open>
  One iteration of the loop body, lines 507-552, as a function of what it reads:
  \<open>destroyed\<close> and \<open>ground\<close> are the two counters loaded at lines 508-509,
  \<open>spawn_done\<close> the flag read at line 529 and \<open>es\<close> the enemy list scanned at line 532.
  It returns the messages printed and the value of \<open>gameRunning\<close> afterwards (every
  branch that prints also clears the flag and leaves the loop).
\<close>

definition tick :: "int \<Rightarrow> int \<Rightarrow> int \<Rightarrow> bool \<Rightarrow> Enemy list \<Rightarrow> outcome list \<times> bool" where
  "tick m destroyed ground spawn_done es =
     (case thresholds m destroyed ground of
        Some out \<Rightarrow> ([out], False)
      | None \<Rightarrow>
          if spawn_done then
            (if \<not> anyAlive es then ([finalCount m destroyed], False) else ([], True))
          else ([], True))"

text \<open>
  What one iteration observes: \<open>gameRunning\<close> at the loop head (line 503; another
  thread clears it when the player quits) and the four values above.
\<close>

record observation =
  obs_running :: bool
  obs_destroyed :: int
  obs_ground :: int
  obs_spawnDone :: bool
  obs_enemies :: "Enemy list"

text \<open>
  The loop of lines 503-553 against a sequence of observations, one for each iteration.
  The result is what the loop printed when it left; \<open>None\<close> when the observations run
  out while the loop is still going.
\<close>

fun mainLoop :: "int \<Rightarrow> observation list \<Rightarrow> outcome list option" where
  "mainLoop m [] = None"
| "mainLoop m (ob # obs) =
     (if \<not> obs_running ob then Some []
      else
        (case tick m (obs_destroyed ob) (obs_ground ob) (obs_spawnDone ob) (obs_enemies ob) of
           (out, False) \<Rightarrow> Some out
         | (out, True) \<Rightarrow>
             (case mainLoop m obs of None \<Rightarrow> None | Some r \<Rightarrow> Some (out @ r))))"

section \<open>Critical sections on the shared lists\<close>

text \<open>
  Every loop over a shared vector runs between a lock and an unlock of that vector's
  mutex, so each is one atomic function on the list. A loop with a \<open>break\<close> stops at
  the first matching record.
\<close>

text \<open>\<open>aimToStep\<close>, lines 150-159: the step \<open>(dx, dy)\<close> of a rocket for each tick.\<close>

fun aimToStep :: "Aim \<Rightarrow> int \<times> int" where
  "aimToStep AIM_UP = (0, -1)"
| "aimToStep AIM_UPLEFT = (-1, -1)"
| "aimToStep AIM_UPRIGHT = (1, -1)"
| "aimToStep AIM_LEFT = (-1, 0)"
| "aimToStep AIM_RIGHT = (1, 0)"

text \<open>\<open>removeRocketById\<close>, lines 162-166: erase every record with the identifier.\<close>

definition removeRocketById :: "int \<Rightarrow> Rocket list \<Rightarrow> Rocket list" where
  "removeRocketById i rs = filter (\<lambda>r. r_id r \<noteq> i) rs"

text \<open>Lines 185-190: a rocket thread writes its position into its record.\<close>

fun updateRocketPos :: "Rocket list \<Rightarrow> Rocket \<Rightarrow> Rocket list" where
  "updateRocketPos [] r = []"
| "updateRocketPos (gr # grs) r =
     (if r_id gr = r_id r then gr\<lparr>r_x := r_x r, r_y := r_y r\<rparr> # grs
      else gr # updateRocketPos grs r)"

text \<open>
  Lines 194-203: the collision check of a rocket thread, from the enemy list and the
  counter \<open>destroyedEnemies\<close> to the new list, the flag \<open>hit\<close> and the new counter.
\<close>

fun collisionCheck :: "Enemy list \<Rightarrow> Rocket \<Rightarrow> int \<Rightarrow> Enemy list \<times> bool \<times> int" where
  "collisionCheck [] r d = ([], False, d)"
| "collisionCheck (e # es) r d =
     (if alive e \<and> e_x e = r_x r \<and> e_y e = r_y r
      then (e\<lparr>alive := False\<rparr> # es, True, d + 1)
      else (case collisionCheck es r d of (es', hit, d') \<Rightarrow> (e # es', hit, d')))"

text \<open>Line 212: has the rocket left the field?\<close>

definition offscreen :: "config \<Rightarrow> Rocket \<Rightarrow> bool" where
  "offscreen cfg r \<longleftrightarrow>
     r_x r < 1 \<or> r_x r \<ge> SCREEN_W cfg - 1 \<or> r_y r < 1 \<or> r_y r \<ge> SCREEN_H cfg - 2"

text \<open>Lines 220-226: a rocket thread that ends marks its record inactive.\<close>

fun markInactive :: "Rocket list \<Rightarrow> Rocket \<Rightarrow> Rocket list" where
  "markInactive [] r = []"
| "markInactive (gr # grs) r =
     (if r_id gr = r_id r then gr\<lparr>active := False\<rparr> # grs
      else gr # markInactive grs r)"

text \<open>Lines 245-251: an enemy thread writes its row into its record.\<close>

fun updateEnemyY :: "Enemy list \<Rightarrow> Enemy \<Rightarrow> Enemy list" where
  "updateEnemyY [] e = []"
| "updateEnemyY (ge # ges) e =
     (if e_id ge = e_id e then ge\<lparr>e_y := e_y e\<rparr> # ges
      else ge # updateEnemyY ges e)"

text \<open>
  Lines 256-263: the ground check of an enemy thread, from the enemy list and the
  counter \<open>groundHits\<close> to the new list and the new counter.
\<close>

fun groundCheck :: "Enemy list \<Rightarrow> Enemy \<Rightarrow> int \<Rightarrow> Enemy list \<times> int" where
  "groundCheck [] e g = ([], g)"
| "groundCheck (ge # ges) e g =
     (if e_id ge = e_id e \<and> alive ge
      then (ge\<lparr>alive := False\<rparr> # ges, g + 1)
      else (case groundCheck ges e g of (ges', g') \<Rightarrow> (ge # ges', g')))"

text \<open>Lines 312-313: is every launcher loaded?\<close>

fun allFull :: "bool list \<Rightarrow> bool" where
  "allFull [] = True"
| "allFull (b # bs) = (if \<not> b then False else allFull bs)"

text \<open>
  Lines 376-379: the index of the first loaded launcher, -1 when there is none; the
  loop variable starts at 0. The vector has \<open>k_launchers_global\<close> elements from line
  490 on and is never resized (\<open>battery_ok\<close> below), so the index is inside it.
\<close>

function chooseLauncher :: "bool list \<Rightarrow> int \<Rightarrow> int \<Rightarrow> int" where
  "chooseLauncher ls k i =
     (if i < k then (if ls ! nat i then i else chooseLauncher ls k (i + 1)) else -1)"
  by pat_completeness auto
termination
  by (relation "measure (\<lambda>(ls, k, i). nat (k - i))") auto

declare chooseLauncher.simps [simp del]

text \<open>
  Lines 375-386, the battery section of a fire event: the launchers afterwards and
  the flag \<open>fired\<close>.
\<close>

definition tryFire :: "bool list \<Rightarrow> int \<Rightarrow> bool list \<times> bool" where
  "tryFire ls k =
     (let chosen = chooseLauncher ls k 0
      in if chosen \<noteq> -1 then (ls[nat chosen := False], True) else (ls, False))"

text \<open>Lines 390-397: the record of a rocket that has just been fired.\<close>

definition newRocket :: "config \<Rightarrow> int \<Rightarrow> Aim \<Rightarrow> Rocket" where
  "newRocket cfg i a =
     \<lparr>r_id = i, r_x = SCREEN_W cfg sdiv 2, r_y = SCREEN_H cfg - 3, aim = a, active = True\<rparr>"

section \<open>The threads and the state of the game\<close>

text \<open>
  Each thread is a record of its local variables and a program counter that names the
  next atomic action: a critical section (everything between the lock and the unlock of
  one mutex), or a load or store of an atomic variable, together with the local
  computation around it. Sleeping takes no step: any other thread may run between two
  steps of a thread, so every interleaving of the real program is a schedule of the
  model. Durations are not modelled; a sleep only bounds from below the time between two
  steps of one thread, which excludes no schedule. The duration the reload thread asks
  for at line 325 is kept beside its step function, as \<open>reloadSleep\<close>.

  Not modelled, because they change nothing that the other threads read: \<open>drawScreen\<close>
  and the screen mutex, the thread handles and the joins at the end of \<open>main\<close>, and
  the signals on \<open>batteryNotFull\<close> (the waiting reload thread may wake at any time,
  as POSIX allows).

  The program counters, with the lines they stand before:
  \<^item> enemy thread: \<open>E_Test\<close> loop test (239), \<open>E_Move\<close> move and write back
    (243-252), \<open>E_Ground\<close> ground check (256-265), \<open>E_Done\<close> returned;
  \<^item> rocket thread: \<open>R_Test\<close> loop test (178), \<open>R_Move\<close> move and write back
    (180-191), \<open>R_Collide\<close> collision check and the two exits (194-214),
    \<open>R_Finish\<close> mark inactive (220-227), \<open>R_Done\<close> returned;
  \<^item> spawner: \<open>S_Test\<close> loop test (277), \<open>S_Push\<close> new record pushed (278-286),
    \<open>S_Create\<close> thread started (289-297), \<open>S_Inc\<close> counter and loop variable
    (299-300), \<open>S_Exit\<close> the store to \<open>spawnDone\<close> (303), \<open>S_Done\<close> returned;
  \<^item> reload thread, player and main loop: see their step functions below.
\<close>

datatype epc = E_Test | E_Move | E_Ground | E_Done

record EnemyThread =
  et_e :: Enemy
  et_pc :: epc

datatype rpc = R_Test | R_Move | R_Collide | R_Finish | R_Done

record RocketThread =
  rt_r :: Rocket
  rt_pc :: rpc

datatype spc = S_Test | S_Push | S_Create | S_Inc | S_Exit | S_Done

record SpawnerThread =
  s_pc :: spc
  s_i :: int
  s_e :: Enemy

datatype lpc = L_Test | L_Lock | L_Wait | L_For | L_Sleep | L_Done

record ReloadThread =
  l_pc :: lpc
  l_i :: int

datatype ppc = P_Test | P_Key | P_Launch | P_Create | P_Done

record PlayerThread =
  p_pc :: ppc
  p_rr :: Rocket

datatype mpc = M_Test | M_LoadD | M_LoadG | M_Spawn | M_Scan | M_Stop | M_Done

record MainThread =
  m_pc :: mpc
  m_destroyed :: int
  m_ground :: int

text \<open>
  The globals of lines 45-84 and the threads. \<open>batteryMutex\<close> is true while the
  reload thread holds the battery mutex across its loop (lines 310-334); every other
  critical section is one step of its thread. \<open>screen\<close> is the list of results the main
  loop has printed.
\<close>

record game =
  enemies :: "Enemy list"
  rockets :: "Rocket list"
  launchers :: "bool list"
  k_launchers_global :: int
  destroyedEnemies :: int
  groundHits :: int
  spawnedEnemies :: int
  gameRunning :: bool
  spawnDone :: bool
  currentAim :: Aim
  nextEnemyId :: int
  nextRocketId :: int
  batteryMutex :: bool
  screen :: "outcome list"
  enemyThreads :: "EnemyThread list"
  rocketThreads :: "RocketThread list"
  spawner :: SpawnerThread
  reloader :: ReloadThread
  player :: PlayerThread
  mainThread :: MainThread

text \<open>
  The state when \<open>main\<close> has started its three threads (lines 45-84, 489-490 and
  498-500). The local records of the spawner and of the player are written before they
  are read; they start at a fixed value. Every preset has a positive number of
  launchers; for a negative one \<open>assign\<close> would throw where \<open>replicate\<close> gives
  the empty vector.
\<close>

definition init :: "config \<Rightarrow> game" where
  "init cfg =
     \<lparr>enemies = [], rockets = [],
      launchers = replicate (nat (k_launchers (settings cfg))) True,
      k_launchers_global = k_launchers (settings cfg),
      destroyedEnemies = 0, groundHits = 0, spawnedEnemies = 0,
      gameRunning = True, spawnDone = False, currentAim = AIM_UP,
      nextEnemyId = 1, nextRocketId = 1, batteryMutex = False, screen = [],
      enemyThreads = [], rocketThreads = [],
      spawner = \<lparr>s_pc = S_Test, s_i = 0, s_e = \<lparr>e_id = 0, e_x = 0, e_y = 0, alive = False\<rparr>\<rparr>,
      reloader = \<lparr>l_pc = L_Test, l_i = 0\<rparr>,
      player = \<lparr>p_pc = P_Test,
                p_rr = \<lparr>r_id = 0, r_x = 0, r_y = 0, aim = AIM_UP, active = False\<rparr>\<rparr>,
      mainThread = \<lparr>m_pc = M_Test, m_destroyed = 0, m_ground = 0\<rparr>\<rparr>"

section \<open>The steps of the threads\<close>

text \<open>
  A step function returns \<open>None\<close> when its thread cannot move: it has returned, or it
  waits for the battery mutex.
\<close>

text \<open>
  \<open>enemySpawnerFn\<close>, lines 273-305. \<open>x\<close> is the column the random generator draws at
  line 280, between 2 and \<open>SCREEN_W - 4\<close>.
\<close>

definition spawnerStep :: "config \<Rightarrow> int \<Rightarrow> game \<Rightarrow> game option" where
  "spawnerStep cfg x s =
     (let t = spawner s in
      case s_pc t of
        S_Test \<Rightarrow>
          Some (s\<lparr>spawner := t\<lparr>s_pc :=
            (if s_i t < m_enemies (settings cfg) \<and> gameRunning s then S_Push else S_Exit)\<rparr>\<rparr>)
      | S_Push \<Rightarrow>
          if 2 \<le> x \<and> x \<le> SCREEN_W cfg - 4 then
            (let e = \<lparr>e_id = nextEnemyId s, e_x = x, e_y = 1, alive = True\<rparr>
             in Some (s\<lparr>nextEnemyId := nextEnemyId s + 1,
                       enemies := enemies s @ [e],
                       spawner := t\<lparr>s_pc := S_Create, s_e := e\<rparr>\<rparr>))
          else None
      | S_Create \<Rightarrow>
          Some (s\<lparr>enemyThreads := enemyThreads s @ [\<lparr>et_e = s_e t, et_pc = E_Test\<rparr>],
                  spawner := t\<lparr>s_pc := S_Inc\<rparr>\<rparr>)
      | S_Inc \<Rightarrow>
          Some (s\<lparr>spawnedEnemies := spawnedEnemies s + 1,
                  spawner := t\<lparr>s_pc := S_Test, s_i := s_i t + 1\<rparr>\<rparr>)
      | S_Exit \<Rightarrow> Some (s\<lparr>spawnDone := True, spawner := t\<lparr>s_pc := S_Done\<rparr>\<rparr>)
      | S_Done \<Rightarrow> None)"

text \<open>
  \<open>enemyThreadFn\<close>, lines 235-270, for the \<open>n\<close>-th enemy thread. \<open>et_e\<close> is the
  thread's own copy \<open>e\<close> of its record (line 236).
\<close>

definition enemyStep :: "config \<Rightarrow> nat \<Rightarrow> game \<Rightarrow> game option" where
  "enemyStep cfg n s =
     (if n < length (enemyThreads s) then
        (let t = enemyThreads s ! n; e = et_e t in
         case et_pc t of
           E_Test \<Rightarrow>
             Some (s\<lparr>enemyThreads := (enemyThreads s)
               [n := t\<lparr>et_pc := (if gameRunning s \<and> alive e then E_Move else E_Done)\<rparr>]\<rparr>)
         | E_Move \<Rightarrow>
             (let e' = e\<lparr>e_y := e_y e + 1\<rparr> in
              Some (s\<lparr>enemies := updateEnemyY (enemies s) e',
                      enemyThreads := (enemyThreads s)
                        [n := \<lparr>et_e = e',
                               et_pc = (if e_y e' \<ge> SCREEN_H cfg - 2 then E_Ground else E_Test)\<rparr>]\<rparr>))
         | E_Ground \<Rightarrow>
             (case groundCheck (enemies s) e (groundHits s) of
                (es', g') \<Rightarrow>
                  Some (s\<lparr>enemies := es', groundHits := g',
                          enemyThreads := (enemyThreads s)[n := t\<lparr>et_pc := E_Done\<rparr>]\<rparr>))
         | E_Done \<Rightarrow> None)
      else None)"

text \<open>
  \<open>rocketThreadFn\<close>, lines 171-232, for the \<open>n\<close>-th rocket thread. \<open>rt_r\<close> is the
  thread's own copy \<open>r\<close> of its record (line 172).
\<close>

definition rocketStep :: "config \<Rightarrow> nat \<Rightarrow> game \<Rightarrow> game option" where
  "rocketStep cfg n s =
     (if n < length (rocketThreads s) then
        (let t = rocketThreads s ! n; r = rt_r t in
         case rt_pc t of
           R_Test \<Rightarrow>
             Some (s\<lparr>rocketThreads := (rocketThreads s)
               [n := t\<lparr>rt_pc := (if gameRunning s \<and> active r then R_Move else R_Finish)\<rparr>]\<rparr>)
         | R_Move \<Rightarrow>
             (let r' = r\<lparr>r_x := r_x r + fst (aimToStep (aim r)),
                         r_y := r_y r + snd (aimToStep (aim r))\<rparr> in
              Some (s\<lparr>rockets := updateRocketPos (rockets s) r',
                      rocketThreads := (rocketThreads s)[n := \<lparr>rt_r = r', rt_pc = R_Collide\<rparr>]\<rparr>))
         | R_Collide \<Rightarrow>
             (case collisionCheck (enemies s) r (destroyedEnemies s) of
                (es', hit, d') \<Rightarrow>
                  Some (s\<lparr>enemies := es', destroyedEnemies := d',
                          rocketThreads := (rocketThreads s)
                            [n := t\<lparr>rt_pc :=
                               (if hit then R_Finish
                                else if offscreen cfg r then R_Finish
                                else R_Test)\<rparr>]\<rparr>))
         | R_Finish \<Rightarrow>
             Some (s\<lparr>rockets := markInactive (rockets s) r,
                     rocketThreads := (rocketThreads s)[n := t\<lparr>rt_pc := R_Done\<rparr>]\<rparr>)
         | R_Done \<Rightarrow> None)
      else None)"

text \<open>
  \<open>reloadThreadFn\<close>, lines 308-337. \<open>L_Lock\<close> is the lock of line 310 with the test
  of lines 312-319; \<open>L_Wait\<close> the return from \<open>pthread_cond_wait\<close>, which takes the
  mutex again and which POSIX allows at any time; \<open>L_For\<close> the head of the loop of line
  321, with the mutex held; \<open>L_Sleep\<close> the end of the sleep of line 325, with the mutex
  released at line 324 and taken again at line 326.
\<close>

definition reloadStep :: "game \<Rightarrow> game option" where
  "reloadStep s =
     (let t = reloader s; i = l_i t in
      case l_pc t of
        L_Test \<Rightarrow>
          Some (s\<lparr>reloader := t\<lparr>l_pc := (if gameRunning s then L_Lock else L_Done)\<rparr>\<rparr>)
      | L_Lock \<Rightarrow>
          if batteryMutex s then None
          else if allFull (launchers s) then Some (s\<lparr>reloader := t\<lparr>l_pc := L_Wait\<rparr>\<rparr>)
          else Some (s\<lparr>batteryMutex := True, reloader := t\<lparr>l_pc := L_For, l_i := 0\<rparr>\<rparr>)
      | L_Wait \<Rightarrow>
          if batteryMutex s then None
          else Some (s\<lparr>reloader := t\<lparr>l_pc := L_Test\<rparr>\<rparr>)
      | L_For \<Rightarrow>
          if i < k_launchers_global s \<and> gameRunning s then
            (if \<not> launchers s ! nat i
             then Some (s\<lparr>batteryMutex := False, reloader := t\<lparr>l_pc := L_Sleep\<rparr>\<rparr>)
             else Some (s\<lparr>reloader := t\<lparr>l_i := i + 1\<rparr>\<rparr>))
          else Some (s\<lparr>batteryMutex := False, reloader := t\<lparr>l_pc := L_Test\<rparr>\<rparr>)
      | L_Sleep \<Rightarrow>
          if batteryMutex s then None
          else
            Some (s\<lparr>launchers :=
                      (if \<not> launchers s ! nat i then (launchers s)[nat i := True]
                       else launchers s),
                    batteryMutex := True,
                    reloader := t\<lparr>l_pc := L_For, l_i := i + 1\<rparr>\<rparr>)
      | L_Done \<Rightarrow> None)"

text \<open>
  Line 325: the number of milliseconds the reload thread asks to sleep for when its
  step in state \<open>s\<close> releases the mutex to wait for an empty launcher, and \<open>None\<close>
  when the step starts no sleep. The program reads the duration from
  \<open>settings.reload_time_ms\<close>. How long the thread then stays asleep is not part of
  the state: it is at least that long, and the wake-up is the step from \<open>L_Sleep\<close>.
\<close>

definition reloadSleep :: "config \<Rightarrow> game \<Rightarrow> int option" where
  "reloadSleep cfg s =
     (case l_pc (reloader s) of
        L_For \<Rightarrow>
          if l_i (reloader s) < k_launchers_global s \<and> gameRunning s
             \<and> \<not> launchers s ! nat (l_i (reloader s))
          then Some (reload_time_ms (settings cfg)) else None
      | _ \<Rightarrow> None)"

text \<open>
  The keys \<open>playerControllerFn\<close> tells apart (lines 351-373): no key (\<open>ERR\<close>), \<open>q\<close>,
  the five aim keys, the space bar, any other key.
\<close>

datatype Key = ERR | Key_Q | Key_Up | Key_Left | Key_Right | Key_Z | Key_C | Key_Space | Key_Other

text \<open>Lines 364-372: an aim key stores the aim under the battery mutex.\<close>

definition setAim :: "Aim \<Rightarrow> game \<Rightarrow> game option" where
  "setAim a s =
     (if batteryMutex s then None
      else Some (s\<lparr>currentAim := a, player := (player s)\<lparr>p_pc := P_Test\<rparr>\<rparr>))"

text \<open>
  A fire event, lines 373-420, in its three parts: the battery section (lines 375-386;
  the local flag \<open>fired\<close> is the program counter \<open>P_Launch\<close>), the new record pushed
  on the rocket list (lines 390-402), and the start of its thread (lines 404-412).
\<close>

definition fireBattery :: "game \<Rightarrow> game" where
  "fireBattery s =
     (case tryFire (launchers s) (k_launchers_global s) of
        (ls', fired) \<Rightarrow>
          s\<lparr>launchers := ls',
            player := (player s)\<lparr>p_pc := (if fired then P_Launch else P_Test)\<rparr>\<rparr>)"

definition fireLaunch :: "config \<Rightarrow> game \<Rightarrow> game" where
  "fireLaunch cfg s =
     (let rr = newRocket cfg (nextRocketId s) (currentAim s)
      in s\<lparr>nextRocketId := nextRocketId s + 1,
           rockets := rockets s @ [rr],
           player := \<lparr>p_pc = P_Create, p_rr = rr\<rparr>\<rparr>)"

definition fireCreate :: "game \<Rightarrow> game" where
  "fireCreate s =
     s\<lparr>rocketThreads := rocketThreads s @ [\<lparr>rt_r = p_rr (player s), rt_pc = R_Test\<rparr>],
       player := (player s)\<lparr>p_pc := P_Test\<rparr>\<rparr>"

text \<open>
  The whole fire event, when no other thread runs between its parts.
\<close>

definition fireEvent :: "config \<Rightarrow> game \<Rightarrow> game" where
  "fireEvent cfg s =
     (let s1 = fireBattery s
      in if p_pc (player s1) = P_Launch then fireCreate (fireLaunch cfg s1) else s1)"

text \<open>\<open>playerControllerFn\<close>, lines 340-427, with the key that \<open>wgetch\<close> returns.\<close>

definition playerStep :: "config \<Rightarrow> Key \<Rightarrow> game \<Rightarrow> game option" where
  "playerStep cfg key s =
     (let t = player s in
      case p_pc t of
        P_Test \<Rightarrow> Some (s\<lparr>player := t\<lparr>p_pc := (if gameRunning s then P_Key else P_Done)\<rparr>\<rparr>)
      | P_Key \<Rightarrow>
          (case key of
             ERR \<Rightarrow> Some (s\<lparr>player := t\<lparr>p_pc := P_Test\<rparr>\<rparr>)
           | Key_Q \<Rightarrow> Some (s\<lparr>gameRunning := False, player := t\<lparr>p_pc := P_Done\<rparr>\<rparr>)
           | Key_Up \<Rightarrow> setAim AIM_UP s
           | Key_Left \<Rightarrow> setAim AIM_LEFT s
           | Key_Right \<Rightarrow> setAim AIM_RIGHT s
           | Key_Z \<Rightarrow> setAim AIM_UPLEFT s
           | Key_C \<Rightarrow> setAim AIM_UPRIGHT s
           | Key_Space \<Rightarrow> if batteryMutex s then None else Some (fireBattery s)
           | Key_Other \<Rightarrow> Some (s\<lparr>player := t\<lparr>p_pc := P_Test\<rparr>\<rparr>))
      | P_Launch \<Rightarrow> Some (fireLaunch cfg s)
      | P_Create \<Rightarrow> Some (fireCreate s)
      | P_Done \<Rightarrow> None)"

text \<open>
  The loop of \<open>main\<close>, lines 503-557, step by step: the two loads of lines 508-509
  (the second with the threshold tests of lines 511-527), the read of \<open>spawnDone\<close>
  (line 529), the scan of the enemy list (lines 530-549) and the stop (line 556).
\<close>

definition mainStep :: "config \<Rightarrow> game \<Rightarrow> game option" where
  "mainStep cfg s =
     (let t = mainThread s; m = m_enemies (settings cfg) in
      case m_pc t of
        M_Test \<Rightarrow>
          Some (s\<lparr>mainThread := t\<lparr>m_pc := (if gameRunning s then M_LoadD else M_Stop)\<rparr>\<rparr>)
      | M_LoadD \<Rightarrow>
          Some (s\<lparr>mainThread := t\<lparr>m_pc := M_LoadG, m_destroyed := destroyedEnemies s\<rparr>\<rparr>)
      | M_LoadG \<Rightarrow>
          (case thresholds m (m_destroyed t) (groundHits s) of
             Some out \<Rightarrow>
               Some (s\<lparr>screen := screen s @ [out], gameRunning := False,
                       mainThread := t\<lparr>m_pc := M_Stop, m_ground := groundHits s\<rparr>\<rparr>)
           | None \<Rightarrow>
               Some (s\<lparr>mainThread := t\<lparr>m_pc := M_Spawn, m_ground := groundHits s\<rparr>\<rparr>))
      | M_Spawn \<Rightarrow>
          Some (s\<lparr>mainThread := t\<lparr>m_pc := (if spawnDone s then M_Scan else M_Test)\<rparr>\<rparr>)
      | M_Scan \<Rightarrow>
          if \<not> anyAlive (enemies s) then
            Some (s\<lparr>screen := screen s @ [finalCount m (m_destroyed t)], gameRunning := False,
                    mainThread := t\<lparr>m_pc := M_Stop\<rparr>\<rparr>)
          else Some (s\<lparr>mainThread := t\<lparr>m_pc := M_Test\<rparr>\<rparr>)
      | M_Stop \<Rightarrow> Some (s\<lparr>gameRunning := False, mainThread := t\<lparr>m_pc := M_Done\<rparr>\<rparr>)
      | M_Done \<Rightarrow> None)"

section \<open>Schedules\<close>

text \<open>
  A label names the thread that takes the next step, with the column drawn for the
  spawner and the key read for the player. A schedule is a list of labels; \<open>run\<close>
  follows it and is \<open>None\<close> when a thread in it cannot move.
\<close>

datatype label =
  T_Spawner int | T_Enemy nat | T_Rocket nat | T_Reload | T_Player Key | T_Main

fun step :: "config \<Rightarrow> label \<Rightarrow> game \<Rightarrow> game option" where
  "step cfg (T_Spawner x) s = spawnerStep cfg x s"
| "step cfg (T_Enemy n) s = enemyStep cfg n s"
| "step cfg (T_Rocket n) s = rocketStep cfg n s"
| "step cfg T_Reload s = reloadStep s"
| "step cfg (T_Player key) s = playerStep cfg key s"
| "step cfg T_Main s = mainStep cfg s"

fun run :: "config \<Rightarrow> label list \<Rightarrow> game \<Rightarrow> game option" where
  "run cfg [] s = Some s"
| "run cfg (l # ls) s = (case step cfg l s of None \<Rightarrow> None | Some s' \<Rightarrow> run cfg ls s')"

section \<open>Concrete inputs\<close>

text \<open>A battery of two launchers on a screen of 24 rows and 80 columns, one enemy.\<close>

definition duo :: config where
  "duo = \<lparr>SCREEN_H = 24, SCREEN_W = 80,
          settings = \<lparr>k_launchers = 2, m_enemies = 1, enemy_step_ms = 700,
                      reload_time_ms = 100, spawn_interval_ms = 900\<rparr>\<rparr>"

section \<open>Notions for the properties\<close>

text \<open>
  The definitions below are not part of the program: they name what the theorems
  say about it.
\<close>

text \<open>
  The number of records whose \<open>alive\<close> flag is set in \<open>es\<close> and cleared in
  \<open>es'\<close>, position by position. Records are only ever appended to the enemy list, so
  a position stands for one entity.
\<close>

definition cleared :: "Enemy list \<Rightarrow> Enemy list \<Rightarrow> nat" where
  "cleared es es' = length (filter (\<lambda>(a, b). alive a \<and> \<not> alive b) (zip es es'))"

text \<open>
  From \<open>es\<close> to \<open>es'\<close> no record is removed, no identifier changes and no cleared
  flag is set again.
\<close>

definition keptDead :: "Enemy list \<Rightarrow> Enemy list \<Rightarrow> bool" where
  "keptDead es es' \<longleftrightarrow>
     length es \<le> length es' \<and>
     list_all (\<lambda>(a, b). e_id b = e_id a \<and> (alive b \<longrightarrow> alive a)) (zip es es')"

text \<open>The number of records whose flag is cleared: the entities in a terminal state.\<close>

definition dead :: "Enemy list \<Rightarrow> nat" where
  "dead es = length (filter (\<lambda>e. \<not> alive e) es)"

text \<open>Is the step one of a rocket thread, of an enemy thread?\<close>

fun isRocket :: "label \<Rightarrow> bool" where
  "isRocket (T_Rocket n) = True"
| "isRocket l = False"

fun isEnemy :: "label \<Rightarrow> bool" where
  "isEnemy (T_Enemy n) = True"
| "isEnemy l = False"

text \<open>
  What one step may do to the flags and to the two counters: it clears at most one flag,
  sets none, and adds the number of flags it cleared to \<open>destroyedEnemies\<close> when it
  is a rocket's step and to \<open>groundHits\<close> when it is an enemy's step; no other
  thread clears a flag or moves these counters.
\<close>

definition flagStep :: "label \<Rightarrow> game \<Rightarrow> game \<Rightarrow> bool" where
  "flagStep l s s' \<longleftrightarrow>
     keptDead (enemies s) (enemies s')
     \<and> cleared (enemies s) (enemies s') \<le> 1
     \<and> destroyedEnemies s' =
         destroyedEnemies s + (if isRocket l then int (cleared (enemies s) (enemies s')) else 0)
     \<and> groundHits s' =
         groundHits s + (if isEnemy l then int (cleared (enemies s) (enemies s')) else 0)
     \<and> (isRocket l \<or> isEnemy l \<or> cleared (enemies s) (enemies s') = 0)"

text \<open>A live record in the cell of rocket \<open>r\<close>; a dead record in that cell.\<close>

definition liveAt :: "Rocket \<Rightarrow> Enemy \<Rightarrow> bool" where
  "liveAt r e \<longleftrightarrow> alive e \<and> e_x e = r_x r \<and> e_y e = r_y r"

definition deadAt :: "Rocket \<Rightarrow> Enemy \<Rightarrow> bool" where
  "deadAt r e \<longleftrightarrow> \<not> alive e \<and> e_x e = r_x r \<and> e_y e = r_y r"

text \<open>
  The invariant behind the bounds on the counters: the spawner's loop variable counts
  the records pushed (one more between the push and the increment of
  \<open>spawnedEnemies\<close>), it never exceeds \<open>m\<close>, and the two counters together count
  the cleared flags.
\<close>

definition spawnInv :: "config \<Rightarrow> game \<Rightarrow> bool" where
  "spawnInv cfg s \<longleftrightarrow>
     0 \<le> s_i (spawner s) \<and> s_i (spawner s) \<le> m_enemies (settings cfg)
     \<and> spawnedEnemies s = s_i (spawner s)
     \<and> int (length (enemies s)) =
         s_i (spawner s) + (if s_pc (spawner s) \<in> {S_Create, S_Inc} then 1 else 0)
     \<and> (s_pc (spawner s) \<in> {S_Push, S_Create, S_Inc} \<longrightarrow>
          s_i (spawner s) < m_enemies (settings cfg))
     \<and> destroyedEnemies s + groundHits s = int (dead (enemies s))"

text \<open>The three counters have not decreased from \<open>s\<close> to \<open>s'\<close>.\<close>

definition countersLe :: "game \<Rightarrow> game \<Rightarrow> bool" where
  "countersLe s s' \<longleftrightarrow>
     destroyedEnemies s \<le> destroyedEnemies s' \<and> groundHits s \<le> groundHits s'
     \<and> spawnedEnemies s \<le> spawnedEnemies s'"

text \<open>
  Step \<open>l\<close> in state \<open>s\<close> is the battery section of a fire event that finds a loaded
  launcher: a successful fire event. \<open>firesIn\<close> counts them along a schedule.
\<close>

definition firedBy :: "label \<Rightarrow> game \<Rightarrow> bool" where
  "firedBy l s \<longleftrightarrow>
     l = T_Player Key_Space \<and> p_pc (player s) = P_Key \<and> \<not> batteryMutex s
     \<and> snd (tryFire (launchers s) (k_launchers_global s))"

fun firesIn :: "config \<Rightarrow> label list \<Rightarrow> game \<Rightarrow> nat" where
  "firesIn cfg [] s = 0"
| "firesIn cfg (l # ls) s =
     (case step cfg l s of
        None \<Rightarrow> 0
      | Some s' \<Rightarrow> (if firedBy l s then 1 else 0) + firesIn cfg ls s')"

text \<open>
  One when the player thread stands between the battery section of a successful fire
  event and the push of its rocket (lines 386-401), zero otherwise.
\<close>

definition pending :: "game \<Rightarrow> nat" where
  "pending s = (if p_pc (player s) = P_Launch then 1 else 0)"

text \<open>The records of \<open>rs\<close> are still in \<open>rs'\<close>, in the same places.\<close>

definition rocketsKept :: "Rocket list \<Rightarrow> Rocket list \<Rightarrow> bool" where
  "rocketsKept rs rs' \<longleftrightarrow> take (length rs) (map r_id rs') = map r_id rs"

text \<open>What one step may do to the rocket list.\<close>

definition rocketStepOk :: "label \<Rightarrow> game \<Rightarrow> game \<Rightarrow> bool" where
  "rocketStepOk l s s' \<longleftrightarrow>
     rocketsKept (rockets s) (rockets s')
     \<and> length (rockets s') + pending s' =
         length (rockets s) + pending s + (if firedBy l s then 1 else 0)"

text \<open>
  The invariant of the battery: the vector has \<open>k_launchers_global\<close> elements, the
  reload thread's index is inside it whenever it is used, and the battery mutex is held
  exactly while the reload thread is at the head of its loop.
\<close>

definition batteryInv :: "game \<Rightarrow> bool" where
  "batteryInv s \<longleftrightarrow>
     k_launchers_global s = int (length (launchers s))
     \<and> 0 \<le> l_i (reloader s)
     \<and> (l_pc (reloader s) = L_Sleep \<longrightarrow> l_i (reloader s) < k_launchers_global s)
     \<and> (batteryMutex s \<longleftrightarrow> l_pc (reloader s) = L_For)"

text \<open>
  No fire event has succeeded yet; while that is so, every launcher is loaded
  (\<open>firstInv\<close>).
\<close>

definition unfired :: "game \<Rightarrow> bool" where
  "unfired s \<longleftrightarrow> rockets s = [] \<and> p_pc (player s) \<noteq> P_Launch"

definition firstInv :: "game \<Rightarrow> bool" where
  "firstInv s \<longleftrightarrow>
     (p_pc (player s) = P_Create \<longrightarrow> rockets s \<noteq> [])
     \<and> (unfired s \<longrightarrow> list_all (\<lambda>b. b) (launchers s))"

text \<open>
  The launcher that step \<open>l\<close> loads in state \<open>s\<close>, if it is the reload thread waking
  up to an empty launcher. \<open>passLoads\<close> lists the launchers loaded along a schedule
  until the reload thread leaves the loop of line 321 (\<open>inPass\<close>).
\<close>

definition loadsNow :: "label \<Rightarrow> game \<Rightarrow> nat list" where
  "loadsNow l s =
     (if l = T_Reload \<and> l_pc (reloader s) = L_Sleep \<and> \<not> batteryMutex s
         \<and> \<not> launchers s ! nat (l_i (reloader s))
      then [nat (l_i (reloader s))] else [])"

definition inPass :: "game \<Rightarrow> bool" where
  "inPass s \<longleftrightarrow> l_pc (reloader s) = L_For \<or> l_pc (reloader s) = L_Sleep"

fun passLoads :: "config \<Rightarrow> label list \<Rightarrow> game \<Rightarrow> nat list" where
  "passLoads cfg [] s = []"
| "passLoads cfg (l # ls) s =
     (case step cfg l s of
        None \<Rightarrow> []
      | Some s' \<Rightarrow> if inPass s then loadsNow l s @ passLoads cfg ls s' else [])"

text \<open>
  A pass of the reload thread over the battery. \<open>passStart s\<close> is the state in which
  the thread has taken the mutex at line 310, found an empty launcher and stands at the
  head of the loop of line 321 with index 0. \<open>passSteps\<close> counts the steps the thread
  needs when it runs alone from the head of the loop over the launchers still in front
  of it: one for a loaded launcher, two for an empty one (release and sleep, wake and
  load), and one to leave the loop. \<open>empties ls i\<close> lists the empty launchers of
  \<open>ls\<close> from index \<open>i\<close> on, in ascending order. \<open>passEnd s i\<close> is the state
  after a pass that started at index \<open>i\<close> in state \<open>s\<close> and ran to the end: every
  launcher from \<open>i\<close> on is loaded, the mutex is released, and the thread stands at
  its loop test of line 309.
\<close>

definition passStart :: "game \<Rightarrow> game" where
  "passStart s = s\<lparr>batteryMutex := True, reloader := \<lparr>l_pc = L_For, l_i = 0\<rparr>\<rparr>"

fun passSteps :: "bool list \<Rightarrow> nat" where
  "passSteps [] = 1"
| "passSteps (b # bs) = (if b then 1 else 2) + passSteps bs"

definition empties :: "bool list \<Rightarrow> nat \<Rightarrow> nat list" where
  "empties ls i = filter (\<lambda>j. \<not> ls ! j) [i..<length ls]"

definition passEnd :: "game \<Rightarrow> nat \<Rightarrow> game" where
  "passEnd s i =
     s\<lparr>launchers := take i (launchers s) @ replicate (length (launchers s) - i) True,
       batteryMutex := False,
       reloader := \<lparr>l_pc = L_Test, l_i = k_launchers_global s\<rparr>\<rparr>"

text \<open>The number of loaded launchers.\<close>

definition loaded :: "bool list \<Rightarrow> nat" where
  "loaded ls = length (filter (\<lambda>b. b) ls)"


text \<open>
  State \<open>s\<close> after enemy thread \<open>n\<close> has written row \<open>y\<close> into its own copy and into
  its record and has reached program counter \<open>pc\<close>; nothing else differs from \<open>s\<close>.
\<close>

definition descended :: "game \<Rightarrow> nat \<Rightarrow> int \<Rightarrow> epc \<Rightarrow> game" where
  "descended s n y pc =
     s\<lparr>enemies := updateEnemyY (enemies s) ((et_e (enemyThreads s ! n))\<lparr>e_y := y\<rparr>),
       enemyThreads := (enemyThreads s)
         [n := \<lparr>et_e = (et_e (enemyThreads s ! n))\<lparr>e_y := y\<rparr>, et_pc = pc\<rparr>]\<rparr>"








text \<open>
  The invariant of the main loop: it has printed at most one result, after a result the
  match is stopped, and past the threshold tests the loaded count is below the victory
  threshold.
\<close>

definition mainInv :: "config \<Rightarrow> game \<Rightarrow> bool" where
  "mainInv cfg s \<longleftrightarrow>
     length (screen s) \<le> 1
     \<and> (screen s \<noteq> [] \<longrightarrow>
          \<not> gameRunning s \<and> (m_pc (mainThread s) = M_Stop \<or> m_pc (mainThread s) = M_Done))
     \<and> (m_pc (mainThread s) = M_Spawn \<or> m_pc (mainThread s) = M_Scan \<longrightarrow>
          m_destroyed (mainThread s) < (m_enemies (settings cfg) + 1) sdiv 2)"

text \<open>The number of steps of the main thread from the first load to the end of the tick.\<close>

definition mainTickSteps :: "config \<Rightarrow> game \<Rightarrow> nat" where
  "mainTickSteps cfg s =
     (if thresholds (m_enemies (settings cfg)) (destroyedEnemies s) (groundHits s) \<noteq> None
      then 2 else if spawnDone s then 4 else 3)"

section \<open>Concrete matches\<close>

text \<open>
  Schedules and states of small matches, used to run the theorems on concrete inputs.
  On the screen of \<open>duo\<close> (24 rows, 80 columns) a rocket starts at column 40, row 21,
  and the ground row is 22.
\<close>

text \<open>
  One full turn of the spawner at column \<open>x\<close>: loop test, push, thread start, counter.
\<close>

definition spawnAt :: "int \<Rightarrow> label list" where
  "spawnAt x = [T_Spawner 0, T_Spawner x, T_Spawner 0, T_Spawner 0]"

text \<open>\<open>j\<close> turns of the loop of enemy thread \<open>n\<close>: loop test and move, \<open>j\<close> times.\<close>

definition moves :: "nat \<Rightarrow> nat \<Rightarrow> label list" where
  "moves n j = concat (replicate j [T_Enemy n, T_Enemy n])"

text \<open>
  The player presses the space bar: loop test, battery section, push of the new rocket,
  start of its thread.
\<close>

definition fireKeys :: "label list" where
  "fireKeys = [T_Player ERR, T_Player Key_Space, T_Player ERR, T_Player ERR]"

text \<open>
  One enemy is spawned in column 40 and descends to row 20; the player fires, and the
  rocket moves up to row 20, where its collision check is the next step.
\<close>

definition toCollide :: "label list" where
  "toCollide = spawnAt 40 @ moves 0 19 @ fireKeys @ [T_Rocket 0, T_Rocket 0]"

definition foe :: "int \<Rightarrow> bool \<Rightarrow> Enemy" where
  "foe y a = \<lparr>e_id = 1, e_x = 40, e_y = y, alive = a\<rparr>"

definition shot :: "int \<Rightarrow> int \<Rightarrow> Rocket" where
  "shot i y = \<lparr>r_id = i, r_x = 40, r_y = y, aim = AIM_UP, active = True\<rparr>"

text \<open>The state \<open>toCollide\<close> leads to, and the state after the collision check.\<close>

definition beforeHit :: game where
  "beforeHit =
     \<lparr>enemies = [foe 20 True], rockets = [shot 1 20],
      launchers = [False, True], k_launchers_global = 2,
      destroyedEnemies = 0, groundHits = 0, spawnedEnemies = 1,
      gameRunning = True, spawnDone = False, currentAim = AIM_UP,
      nextEnemyId = 2, nextRocketId = 2, batteryMutex = False, screen = [],
      enemyThreads = [\<lparr>et_e = foe 20 True, et_pc = E_Test\<rparr>],
      rocketThreads = [\<lparr>rt_r = shot 1 20, rt_pc = R_Collide\<rparr>],
      spawner = \<lparr>s_pc = S_Test, s_i = 1, s_e = foe 1 True\<rparr>,
      reloader = \<lparr>l_pc = L_Test, l_i = 0\<rparr>,
      player = \<lparr>p_pc = P_Test, p_rr = shot 1 21\<rparr>,
      mainThread = \<lparr>m_pc = M_Test, m_destroyed = 0, m_ground = 0\<rparr>\<rparr>"

definition afterHit :: game where
  "afterHit =
     beforeHit\<lparr>enemies := [foe 20 False], destroyedEnemies := 1,
       rocketThreads := [\<lparr>rt_r = shot 1 20, rt_pc = R_Finish\<rparr>]\<rparr>"

text \<open>
  After the hit the player fires the second launcher; the second rocket moves to row
  20, the cell of the dead record, and its collision check is the next step.
\<close>

definition toDeadCell :: "label list" where
  "toDeadCell = toCollide @ [T_Rocket 0] @ fireKeys @ [T_Rocket 1, T_Rocket 1]"

definition overDead :: game where
  "overDead =
     afterHit\<lparr>rockets := [shot 1 20, shot 2 20], launchers := [False, False],
       nextRocketId := 3,
       rocketThreads := [\<lparr>rt_r = shot 1 20, rt_pc = R_Finish\<rparr>,
                         \<lparr>rt_r = shot 2 20, rt_pc = R_Collide\<rparr>],
       player := \<lparr>p_pc = P_Test, p_rr = shot 2 21\<rparr>\<rparr>"

definition flownOn :: game where
  "flownOn =
     overDead\<lparr>rocketThreads := [\<lparr>rt_r = shot 1 20, rt_pc = R_Finish\<rparr>,
                                  \<lparr>rt_r = shot 2 20, rt_pc = R_Test\<rparr>]\<rparr>"

text \<open>
  After the hit the player fires the second launcher and polls the keyboard again; the
  reload thread takes the battery mutex with both launchers empty (\<open>scanning\<close>),
  releases it to sleep for launcher 0 (\<open>sleeping\<close>), and loads launcher 0
  (\<open>loadedOne\<close>).
\<close>

definition toScan :: "label list" where
  "toScan = toCollide @ [T_Rocket 0] @ fireKeys @ [T_Player ERR, T_Reload, T_Reload]"

definition scanning :: game where
  "scanning =
     afterHit\<lparr>rockets := [shot 1 20, shot 2 21], launchers := [False, False],
       nextRocketId := 3, batteryMutex := True,
       rocketThreads := [\<lparr>rt_r = shot 1 20, rt_pc = R_Finish\<rparr>,
                         \<lparr>rt_r = shot 2 21, rt_pc = R_Test\<rparr>],
       reloader := \<lparr>l_pc = L_For, l_i = 0\<rparr>,
       player := \<lparr>p_pc = P_Key, p_rr = shot 2 21\<rparr>\<rparr>"

definition sleeping :: game where
  "sleeping = scanning\<lparr>batteryMutex := False, reloader := \<lparr>l_pc = L_Sleep, l_i = 0\<rparr>\<rparr>"

definition loadedOne :: game where
  "loadedOne = scanning\<lparr>launchers := [True, False], reloader := \<lparr>l_pc = L_For, l_i = 1\<rparr>\<rparr>"

text \<open>
  From \<open>scanning\<close> the reload thread sleeps for launcher 0, loads it and sleeps for
  launcher 1; the player fires launcher 0 during that sleep; the reload thread loads
  launcher 1 and leaves its loop (\<open>refired\<close>).
\<close>

definition firedAsleep :: "label list" where
  "firedAsleep = [T_Reload, T_Reload, T_Reload, T_Player Key_Space, T_Reload, T_Reload]"

definition refired :: game where
  "refired =
     scanning\<lparr>launchers := [False, True], batteryMutex := False,
       reloader := \<lparr>l_pc = L_Test, l_i = 2\<rparr>,
       player := \<lparr>p_pc = P_Launch, p_rr = shot 2 21\<rparr>\<rparr>"

text \<open>
  From \<open>scanning\<close> the reload thread completes its pass alone, the player fires
  launcher 0, and the reload thread comes back to the lock of line 310 with its index
  still 2 from the first pass (\<open>relock\<close>).
\<close>

definition toRelock :: "label list" where
  "toRelock = toScan @ replicate 5 T_Reload @ [T_Player Key_Space, T_Reload]"

definition relock :: game where
  "relock =
     scanning\<lparr>launchers := [False, True], batteryMutex := False,
       reloader := \<lparr>l_pc = L_Lock, l_i = 2\<rparr>,
       player := \<lparr>p_pc = P_Launch, p_rr = shot 2 21\<rparr>\<rparr>"

text \<open>
  After the hit the reload thread loads launcher 0 again and stands at launcher 1,
  which is loaded.
\<close>

definition fullAgain :: game where
  "fullAgain =
     afterHit\<lparr>launchers := [True, True], batteryMutex := True,
       reloader := \<lparr>l_pc = L_For, l_i = 1\<rparr>\<rparr>"

text \<open>
  After the hit the main loop starts a tick (\<open>loading\<close>) and declares the result
  (\<open>won\<close>): one of one enemies is destroyed.
\<close>

definition loading :: game where
  "loading = afterHit\<lparr>mainThread := \<lparr>m_pc = M_LoadD, m_destroyed = 0, m_ground = 0\<rparr>\<rparr>"

definition won :: game where
  "won =
     afterHit\<lparr>gameRunning := False, screen := [YOU_WIN],
       mainThread := \<lparr>m_pc = M_Stop, m_destroyed = 1, m_ground = 0\<rparr>\<rparr>"





text \<open>
  Before any fire event: the spawner, the reload thread and the player have each taken
  one step.
\<close>

definition idle :: game where
  "idle =
     (init duo)\<lparr>spawner := (spawner (init duo))\<lparr>s_pc := S_Push\<rparr>,
       reloader := \<lparr>l_pc = L_Lock, l_i = 0\<rparr>,
       player := (player (init duo))\<lparr>p_pc := P_Key\<rparr>\<rparr>"

text \<open>
  A match on the preset Easy (3 launchers, 12 enemies) on the smallest screen, 20 rows
  and 60 columns: a rocket starts at column 30, row 17, and the ground row is 18.
  \<open>grounded n\<close> spawns enemy \<open>n\<close> in column 2 and lets it reach the ground;
  \<open>inLane n\<close> spawns enemy \<open>n\<close> in column 30 and lets it descend to row 16;
  \<open>aimed j\<close> fires rocket \<open>j\<close> and moves it to row 16, in front of its collision
  check; \<open>killed n j\<close> is \<open>inLane n\<close>, \<open>aimed j\<close> and the collision check;
  \<open>reloadAll\<close> is a pass of the reload thread over three empty launchers.
\<close>

definition easy :: config where
  "easy = mkConfig 20 60 1"

definition grounded :: "nat \<Rightarrow> label list" where
  "grounded n = spawnAt 2 @ moves n 17 @ [T_Enemy n]"

definition inLane :: "nat \<Rightarrow> label list" where
  "inLane n = spawnAt 30 @ moves n 15"

definition aimed :: "nat \<Rightarrow> label list" where
  "aimed j = fireKeys @ [T_Rocket j, T_Rocket j]"

definition killed :: "nat \<Rightarrow> nat \<Rightarrow> label list" where
  "killed n j = inLane n @ aimed j @ [T_Rocket j]"

definition reloadAll :: "label list" where
  "reloadAll = replicate 9 T_Reload"

text \<open>
  Six enemies reach the ground and five are destroyed. The twelfth descends into the
  lane, the spawner ends, and the sixth rocket stands in the enemy's cell. The main
  loop then loads the two counters (5 and 6), the rocket's collision check destroys the
  last enemy, and the main loop reads \<open>spawnDone\<close> and scans the list.
\<close>

definition staleRace :: "label list" where
  "staleRace =
     grounded 0 @ grounded 1 @ grounded 2 @ grounded 3 @ grounded 4 @ grounded 5
     @ killed 6 0 @ killed 7 1 @ killed 8 2 @ reloadAll @ killed 9 3 @ killed 10 4
     @ inLane 11 @ [T_Spawner 0, T_Spawner 0] @ aimed 5
     @ [T_Main, T_Main, T_Main] @ [T_Rocket 5] @ [T_Main, T_Main]"



text \<open>After the hit the first rocket's thread ends: its record stays, marked inactive.\<close>

definition spent :: game where
  "spent =
     afterHit\<lparr>rockets := [(shot 1 20)\<lparr>active := False\<rparr>],
       rocketThreads := [\<lparr>rt_r = shot 1 20, rt_pc = R_Done\<rparr>]\<rparr>"

section \<open>Properties of the match controller\<close>

lemma anyAlive_iff: "anyAlive es \<longleftrightarrow> (\<exists>e \<in> set es. alive e)"
  by (induction es) auto

lemma tick_cases:
  "tick m d g sd es = ([YOU_WIN], False) \<or> tick m d g sd es = ([YOU_LOSE], False)
   \<or> tick m d g sd es = ([], True)"
  by (simp add: tick_def thresholds_def finalCount_def)

lemma mainLoop_cases:
  "mainLoop m obs = Some outs \<Longrightarrow> outs = [] \<or> outs = [YOU_WIN] \<or> outs = [YOU_LOSE]"
proof (induction obs arbitrary: outs)
  case Nil
  then show ?case by simp
next
  case (Cons ob obs)
  consider (w) "tick m (obs_destroyed ob) (obs_ground ob) (obs_spawnDone ob) (obs_enemies ob) = ([YOU_WIN], False)"
    | (l) "tick m (obs_destroyed ob) (obs_ground ob) (obs_spawnDone ob) (obs_enemies ob) = ([YOU_LOSE], False)"
    | (c) "tick m (obs_destroyed ob) (obs_ground ob) (obs_spawnDone ob) (obs_enemies ob) = ([], True)"
    using tick_cases by blast
  then show ?case
  proof cases
    case w
    with Cons.prems show ?thesis by (auto split: if_splits)
  next
    case l
    with Cons.prems show ?thesis by (auto split: if_splits)
  next
    case c
    with Cons.prems Cons.IH show ?thesis by (auto split: if_splits option.splits)
  qed
qed

lemma mainLoop_decided:
  "mainLoop m obs = Some outs \<Longrightarrow> list_all obs_running obs \<Longrightarrow> outs \<noteq> []"
proof (induction obs arbitrary: outs)
  case Nil
  then show ?case by simp
next
  case (Cons ob obs)
  consider (w) "tick m (obs_destroyed ob) (obs_ground ob) (obs_spawnDone ob) (obs_enemies ob) = ([YOU_WIN], False)"
    | (l) "tick m (obs_destroyed ob) (obs_ground ob) (obs_spawnDone ob) (obs_enemies ob) = ([YOU_LOSE], False)"
    | (c) "tick m (obs_destroyed ob) (obs_ground ob) (obs_spawnDone ob) (obs_enemies ob) = ([], True)"
    using tick_cases by blast
  then show ?case
  proof cases
    case w
    with Cons.prems show ?thesis by auto
  next
    case l
    with Cons.prems show ?thesis by auto
  next
    case c
    with Cons.prems Cons.IH show ?thesis by (auto split: option.splits)
  qed
qed

text \<open>
  On the values it has loaded, a tick that finds spawning complete and no enemy alive
  always ends the match: with victory when the loaded count of destroyed enemies reaches
  \<open>(m + 1) / 2\<close>, with defeat otherwise, also when the ground count does not exceed
  \<open>m / 2\<close>.
\<close>

lemma exhausted_pool_decides:
  "spawn_done \<and> \<not> anyAlive es \<longrightarrow>
     tick m d g spawn_done es = ([if d \<ge> (m + 1) sdiv 2 then YOU_WIN else YOU_LOSE], False)
     \<and> (d < (m + 1) sdiv 2 \<and> g \<le> m sdiv 2 \<longrightarrow>
          thresholds m d g = None \<and> tick m d g spawn_done es = ([YOU_LOSE], False))"
  by (simp add: tick_def thresholds_def finalCount_def)

section \<open>Properties of the battery\<close>

lemma chooseLauncher_none:
  "0 \<le> i \<Longrightarrow> \<forall>j. nat i \<le> j \<and> j < nat k \<longrightarrow> \<not> ls ! j \<Longrightarrow> chooseLauncher ls k i = -1"
proof (induction ls k i rule: chooseLauncher.induct)
  case (1 ls k i)
  show ?case
  proof (cases "i < k")
    case True
    with "1.prems" have ni: "\<not> ls ! nat i" by auto
    have "\<forall>j. nat (i + 1) \<le> j \<and> j < nat k \<longrightarrow> \<not> ls ! j"
      using "1.prems" by (simp add: nat_add_distrib)
    moreover have "0 \<le> i + 1" using "1.prems" by simp
    ultimately have "chooseLauncher ls k (i + 1) = -1"
      using "1.IH" [OF True ni] by blast
    with True ni show ?thesis by (simp add: chooseLauncher.simps [of ls k i])
  next
    case False
    then show ?thesis by (simp add: chooseLauncher.simps [of ls k i])
  qed
qed

lemma chooseLauncher_first:
  "0 \<le> i \<Longrightarrow> nat i \<le> c \<Longrightarrow> c < nat k \<Longrightarrow> ls ! c \<Longrightarrow>
   \<forall>j. nat i \<le> j \<and> j < c \<longrightarrow> \<not> ls ! j \<Longrightarrow> chooseLauncher ls k i = int c"
proof (induction ls k i rule: chooseLauncher.induct)
  case (1 ls k i)
  from "1.prems" have ik: "i < k" by linarith
  show ?case
  proof (cases "ls ! nat i")
    case True
    have "c = nat i"
    proof (rule ccontr)
      assume "c \<noteq> nat i"
      with "1.prems" have "nat i < c" by simp
      with "1.prems" True show False by blast
    qed
    with True ik "1.prems" show ?thesis by (simp add: chooseLauncher.simps [of ls k i])
  next
    case False
    with "1.prems" have "nat i \<noteq> c" by auto
    with "1.prems" have "nat (i + 1) \<le> c" by linarith
    moreover have "\<forall>j. nat (i + 1) \<le> j \<and> j < c \<longrightarrow> \<not> ls ! j"
      using "1.prems" by (simp add: nat_add_distrib)
    moreover have "0 \<le> i + 1" using "1.prems" by simp
    ultimately have "chooseLauncher ls k (i + 1) = int c"
      using "1.IH" [OF ik False] "1.prems" by blast
    with False ik show ?thesis by (simp add: chooseLauncher.simps [of ls k i])
  qed
qed

lemma tryFire_none:
  "k = int (length ls) \<Longrightarrow> \<forall>j < length ls. \<not> ls ! j \<Longrightarrow> tryFire ls k = (ls, False)"
  using chooseLauncher_none [of 0 k ls] by (simp add: tryFire_def)

lemma tryFire_first:
  "k = int (length ls) \<Longrightarrow> c < length ls \<Longrightarrow> ls ! c \<Longrightarrow> \<forall>j < c. \<not> ls ! j \<Longrightarrow>
   tryFire ls k = (ls[c := False], True)"
  using chooseLauncher_first [of 0 c k ls] by (simp add: tryFire_def)

lemma fireEvent_none:
  assumes "k_launchers_global s = int (length (launchers s))"
    and "\<forall>j < length (launchers s). \<not> launchers s ! j"
  shows "fireEvent cfg s = s\<lparr>player := (player s)\<lparr>p_pc := P_Test\<rparr>\<rparr>"
  using tryFire_none [OF assms] by (simp add: fireEvent_def fireBattery_def)

lemma fireEvent_first:
  assumes "k_launchers_global s = int (length (launchers s))"
    and "c < length (launchers s)" "launchers s ! c" "\<forall>j < c. \<not> launchers s ! j"
  shows "fireEvent cfg s =
     s\<lparr>launchers := (launchers s)[c := False],
       nextRocketId := nextRocketId s + 1,
       rockets := rockets s @ [newRocket cfg (nextRocketId s) (currentAim s)],
       rocketThreads := rocketThreads s @
         [\<lparr>rt_r = newRocket cfg (nextRocketId s) (currentAim s), rt_pc = R_Test\<rparr>],
       player := \<lparr>p_pc = P_Test, p_rr = newRocket cfg (nextRocketId s) (currentAim s)\<rparr>\<rparr>"
  using tryFire_first [OF assms]
  by (simp add: fireEvent_def fireBattery_def fireLaunch_def fireCreate_def Let_def)

section \<open>The alive flags and the two counters\<close>

lemma cleared_same [simp]: "cleared es es = 0"
  by (induction es) (auto simp: cleared_def)

lemma cleared_append [simp]: "cleared es (es @ xs) = 0"
  by (induction es) (auto simp: cleared_def)

lemma cleared_Cons [simp]:
  "cleared (a # es) (b # es') = (if alive a \<and> \<not> alive b then 1 else 0) + cleared es es'"
  by (simp add: cleared_def)

lemma cleared_Nil [simp]: "cleared [] es' = 0"
  by (simp add: cleared_def)

lemma keptDead_same [simp]: "keptDead es es"
  by (induction es) (auto simp: keptDead_def)

lemma keptDead_append [simp]: "keptDead es (es @ xs)"
  by (induction es) (auto simp: keptDead_def)

lemma keptDead_Cons [simp]:
  "keptDead (a # es) (b # es') \<longleftrightarrow> e_id b = e_id a \<and> (alive b \<longrightarrow> alive a) \<and> keptDead es es'"
  by (auto simp: keptDead_def)

lemma keptDead_Nil [simp]: "keptDead [] es'"
  by (simp add: keptDead_def)

lemma keptDead_trans: "keptDead a b \<Longrightarrow> keptDead b c \<Longrightarrow> keptDead a c"
proof (induction a arbitrary: b c)
  case Nil
  then show ?case by simp
next
  case (Cons x a)
  then obtain y b' where b: "b = y # b'" by (cases b) (auto simp: keptDead_def)
  from Cons.prems(1) b have 1: "e_id y = e_id x" "alive y \<longrightarrow> alive x" "keptDead a b'"
    by simp_all
  from Cons.prems(2) b obtain z c' where c: "c = z # c'" by (cases c) (auto simp: keptDead_def)
  from Cons.prems(2) b c have 2: "e_id z = e_id y" "alive z \<longrightarrow> alive y" "keptDead b' c'"
    by simp_all
  from Cons.IH [OF 1(3) 2(3)] 1 2 c show ?case by simp
qed

lemma keptDead_nth:
  "keptDead es es' \<Longrightarrow> i < length es \<Longrightarrow>
   e_id (es' ! i) = e_id (es ! i) \<and> (alive (es' ! i) \<longrightarrow> alive (es ! i))"
proof (induction es arbitrary: es' i)
  case Nil
  then show ?case by simp
next
  case (Cons a es)
  from Cons.prems obtain b es'' where b: "es' = b # es''"
    by (cases es') (auto simp: keptDead_def)
  from Cons.prems(1) b have k: "e_id b = e_id a" "alive b \<longrightarrow> alive a" "keptDead es es''"
    by simp_all
  show ?case
  proof (cases i)
    case 0
    with k b show ?thesis by simp
  next
    case (Suc j)
    with Cons.prems(2) have "j < length es" by simp
    from Cons.IH [OF k(3) this] Suc b show ?thesis by simp
  qed
qed

lemma dead_Nil [simp]: "dead [] = 0"
  by (simp add: dead_def)

lemma dead_Cons [simp]: "dead (e # es) = (if alive e then 0 else 1) + dead es"
  by (simp add: dead_def)

lemma dead_append [simp]: "dead (es @ xs) = dead es + dead xs"
  by (simp add: dead_def)

lemma dead_le_length: "dead es \<le> length es"
  by (simp add: dead_def)

lemma updateEnemyY_effect:
  "cleared es (updateEnemyY es e) = 0 \<and> keptDead es (updateEnemyY es e)
   \<and> dead (updateEnemyY es e) = dead es \<and> length (updateEnemyY es e) = length es"
  by (induction es) auto

lemma collisionCheck_effect:
  "collisionCheck es r d = (es', hit, d') \<Longrightarrow>
     keptDead es es' \<and> length es' = length es
     \<and> cleared es es' = (if hit then 1 else 0)
     \<and> d' = d + (if hit then 1 else 0)
     \<and> dead es' = dead es + (if hit then 1 else 0)"
proof (induction es arbitrary: es' hit d')
  case Nil
  then show ?case by simp
next
  case (Cons e es)
  show ?case
  proof (cases "alive e \<and> e_x e = r_x r \<and> e_y e = r_y r")
    case True
    with Cons.prems show ?thesis by auto
  next
    case False
    obtain es1 h1 d1 where c: "collisionCheck es r d = (es1, h1, d1)"
      by (cases "collisionCheck es r d") auto
    from Cons.IH [OF c] c False Cons.prems show ?thesis by auto
  qed
qed

lemma groundCheck_effect:
  "groundCheck es e g = (es', g') \<Longrightarrow>
     keptDead es es' \<and> length es' = length es
     \<and> int (cleared es es') = g' - g \<and> cleared es es' \<le> 1
     \<and> int (dead es') = int (dead es) + (g' - g)"
proof (induction es arbitrary: es' g')
  case Nil
  then show ?case by simp
next
  case (Cons ge es)
  show ?case
  proof (cases "e_id ge = e_id e \<and> alive ge")
    case True
    with Cons.prems show ?thesis by auto
  next
    case False
    obtain es1 g1 where c: "groundCheck es e g = (es1, g1)"
      by (cases "groundCheck es e g") auto
    from Cons.IH [OF c] c False Cons.prems show ?thesis by auto
  qed
qed

lemma spawnerStep_flags: "spawnerStep cfg x s = Some s' \<Longrightarrow> flagStep (T_Spawner x) s s'"
  by (auto simp: spawnerStep_def flagStep_def Let_def split: spc.splits if_splits)

lemma enemyStep_flags:
  assumes "enemyStep cfg n s = Some s'"
  shows "flagStep (T_Enemy n) s s'"
proof -
  from assms have n: "n < length (enemyThreads s)"
    by (simp add: enemyStep_def split: if_splits)
  show ?thesis
  proof (cases "et_pc (enemyThreads s ! n)")
    case E_Test
    with assms n show ?thesis by (auto simp: enemyStep_def flagStep_def Let_def)
  next
    case E_Move
    with assms n show ?thesis
      by (auto simp: enemyStep_def flagStep_def Let_def updateEnemyY_effect)
  next
    case E_Ground
    obtain es' g' where g: "groundCheck (enemies s) (et_e (enemyThreads s ! n)) (groundHits s) = (es', g')"
      by (cases "groundCheck (enemies s) (et_e (enemyThreads s ! n)) (groundHits s)") auto
    from groundCheck_effect [OF g] g E_Ground assms n show ?thesis
      by (auto simp: enemyStep_def flagStep_def Let_def)
  next
    case E_Done
    with assms n show ?thesis by (auto simp: enemyStep_def)
  qed
qed

lemma rocketStep_flags:
  assumes "rocketStep cfg n s = Some s'"
  shows "flagStep (T_Rocket n) s s'"
proof -
  from assms have n: "n < length (rocketThreads s)"
    by (simp add: rocketStep_def split: if_splits)
  show ?thesis
  proof (cases "rt_pc (rocketThreads s ! n)")
    case R_Collide
    obtain es' hit d' where c:
      "collisionCheck (enemies s) (rt_r (rocketThreads s ! n)) (destroyedEnemies s) = (es', hit, d')"
      by (cases "collisionCheck (enemies s) (rt_r (rocketThreads s ! n)) (destroyedEnemies s)") auto
    from collisionCheck_effect [OF c] c R_Collide assms n show ?thesis
      by (auto simp: rocketStep_def flagStep_def Let_def)
  qed (use assms n in \<open>auto simp: rocketStep_def flagStep_def Let_def\<close>)
qed

lemma reloadStep_flags: "reloadStep s = Some s' \<Longrightarrow> flagStep T_Reload s s'"
  by (auto simp: reloadStep_def flagStep_def Let_def split: lpc.splits if_splits)

lemma playerStep_flags: "playerStep cfg key s = Some s' \<Longrightarrow> flagStep (T_Player key) s s'"
  by (auto simp: playerStep_def flagStep_def Let_def setAim_def fireBattery_def fireLaunch_def
      fireCreate_def split: ppc.splits Key.splits if_splits prod.splits)

lemma mainStep_flags: "mainStep cfg s = Some s' \<Longrightarrow> flagStep T_Main s s'"
  by (auto simp: mainStep_def flagStep_def Let_def split: mpc.splits if_splits option.splits)

lemma step_flags: "step cfg l s = Some s' \<Longrightarrow> flagStep l s s'"
  by (cases l)
    (simp_all add: spawnerStep_flags enemyStep_flags rocketStep_flags reloadStep_flags
      playerStep_flags mainStep_flags)

lemma run_keptDead: "run cfg ls s = Some s' \<Longrightarrow> keptDead (enemies s) (enemies s')"
proof (induction ls arbitrary: s)
  case Nil
  then show ?case by simp
next
  case (Cons l ls)
  then obtain s1 where s1: "step cfg l s = Some s1" "run cfg ls s1 = Some s'"
    by (auto split: option.splits)
  from step_flags [OF s1(1)] have "keptDead (enemies s) (enemies s1)"
    by (simp add: flagStep_def)
  with Cons.IH [OF s1(2)] show ?case by (rule keptDead_trans [rotated])
qed

lemma collisionCheck_miss:
  "\<not> list_ex (liveAt r) es \<Longrightarrow> collisionCheck es r d = (es, False, d)"
  by (induction es) (auto simp: liveAt_def)

lemma collisionCheck_hit_iff:
  "collisionCheck es r d = (es', hit, d') \<Longrightarrow> hit \<longleftrightarrow> list_ex (liveAt r) es"
proof (induction es arbitrary: es' hit d')
  case Nil
  then show ?case by simp
next
  case (Cons e es)
  show ?case
  proof (cases "liveAt r e")
    case True
    with Cons.prems show ?thesis by (auto simp: liveAt_def)
  next
    case False
    obtain es1 h1 d1 where c: "collisionCheck es r d = (es1, h1, d1)"
      by (cases "collisionCheck es r d") auto
    from Cons.IH [OF c] c False Cons.prems show ?thesis by (auto simp: liveAt_def)
  qed
qed

lemma collisionCheck_live:
  "collisionCheck es r d = (es', hit, d') \<Longrightarrow> r_x r2 = r_x r \<Longrightarrow> r_y r2 = r_y r \<Longrightarrow>
   length (filter (liveAt r2) es') + (if hit then 1 else 0) = length (filter (liveAt r) es)"
proof (induction es arbitrary: es' hit d')
  case Nil
  then show ?case by simp
next
  case (Cons e es)
  show ?case
  proof (cases "liveAt r e")
    case True
    with Cons.prems show ?thesis by (auto simp: liveAt_def)
  next
    case False
    obtain es1 h1 d1 where c: "collisionCheck es r d = (es1, h1, d1)"
      by (cases "collisionCheck es r d") auto
    from Cons.IH [OF c Cons.prems(2,3)] c False Cons.prems show ?thesis
      by (auto simp: liveAt_def)
  qed
qed

lemma groundCheck_miss:
  "groundCheck es e g = (es', g') \<Longrightarrow> g' = g \<Longrightarrow> es' = es"
proof (induction es arbitrary: es' g')
  case Nil
  then show ?case by simp
next
  case (Cons ge es)
  show ?case
  proof (cases "e_id ge = e_id e \<and> alive ge")
    case True
    with Cons.prems show ?thesis by auto
  next
    case False
    obtain es1 g1 where c: "groundCheck es e g = (es1, g1)"
      by (cases "groundCheck es e g") auto
    from Cons.IH [OF c] c False Cons.prems show ?thesis by auto
  qed
qed

lemma second_rocket_misses:
  assumes "collisionCheck es r d = (es', hit, d')" "r_x r2 = r_x r" "r_y r2 = r_y r"
    and "length (filter (liveAt r) es) = 1"
  shows "hit \<and> d' = d + 1 \<and> collisionCheck es' r2 d' = (es', False, d')"
proof -
  from assms(4) have "list_ex (liveAt r) es"
    by (metis One_nat_def filter_False length_0_conv list_ex_iff n_not_Suc_n)
  with collisionCheck_hit_iff [OF assms(1)] have h: hit by simp
  with collisionCheck_live [OF assms(1-3)] assms(4) have "filter (liveAt r2) es' = []"
    by simp
  then have "\<not> list_ex (liveAt r2) es'"
    by (simp add: list_ex_iff filter_empty_conv)
  from collisionCheck_miss [OF this] collisionCheck_effect [OF assms(1)] h show ?thesis
    by simp
qed

section \<open>The counters are bounded\<close>

lemma spawnInv_init: "0 \<le> m_enemies (settings cfg) \<Longrightarrow> spawnInv cfg (init cfg)"
  by (simp add: spawnInv_def init_def)

text \<open>What the steps of each thread leave as it is.\<close>

lemma reloadStep_frame:
  "reloadStep s = Some s' \<Longrightarrow>
     enemies s' = enemies s \<and> rockets s' = rockets s
     \<and> destroyedEnemies s' = destroyedEnemies s \<and> groundHits s' = groundHits s
     \<and> spawnedEnemies s' = spawnedEnemies s \<and> gameRunning s' = gameRunning s
     \<and> spawnDone s' = spawnDone s \<and> nextEnemyId s' = nextEnemyId s
     \<and> nextRocketId s' = nextRocketId s \<and> k_launchers_global s' = k_launchers_global s
     \<and> screen s' = screen s \<and> enemyThreads s' = enemyThreads s
     \<and> rocketThreads s' = rocketThreads s \<and> spawner s' = spawner s
     \<and> player s' = player s \<and> mainThread s' = mainThread s \<and> currentAim s' = currentAim s"
  by (cases "l_pc (reloader s)") (auto simp: reloadStep_def Let_def split: if_splits)

lemma setAim_frame:
  "setAim a s = Some s' \<Longrightarrow>
     enemies s' = enemies s \<and> rockets s' = rockets s
     \<and> destroyedEnemies s' = destroyedEnemies s \<and> groundHits s' = groundHits s
     \<and> spawnedEnemies s' = spawnedEnemies s \<and> gameRunning s' = gameRunning s
     \<and> spawnDone s' = spawnDone s \<and> nextEnemyId s' = nextEnemyId s
     \<and> nextRocketId s' = nextRocketId s \<and> k_launchers_global s' = k_launchers_global s
     \<and> screen s' = screen s \<and> enemyThreads s' = enemyThreads s
     \<and> rocketThreads s' = rocketThreads s \<and> spawner s' = spawner s
     \<and> reloader s' = reloader s \<and> mainThread s' = mainThread s
     \<and> launchers s' = launchers s \<and> batteryMutex s' = batteryMutex s"
  by (auto simp: setAim_def split: if_splits)

lemma fireBattery_frame:
  "enemies (fireBattery s) = enemies s \<and> rockets (fireBattery s) = rockets s
     \<and> destroyedEnemies (fireBattery s) = destroyedEnemies s
     \<and> groundHits (fireBattery s) = groundHits s
     \<and> spawnedEnemies (fireBattery s) = spawnedEnemies s
     \<and> gameRunning (fireBattery s) = gameRunning s
     \<and> spawnDone (fireBattery s) = spawnDone s \<and> nextEnemyId (fireBattery s) = nextEnemyId s
     \<and> nextRocketId (fireBattery s) = nextRocketId s
     \<and> k_launchers_global (fireBattery s) = k_launchers_global s
     \<and> screen (fireBattery s) = screen s \<and> enemyThreads (fireBattery s) = enemyThreads s
     \<and> rocketThreads (fireBattery s) = rocketThreads s \<and> spawner (fireBattery s) = spawner s
     \<and> reloader (fireBattery s) = reloader s \<and> mainThread (fireBattery s) = mainThread s
     \<and> batteryMutex (fireBattery s) = batteryMutex s
     \<and> currentAim (fireBattery s) = currentAim s"
  by (cases "tryFire (launchers s) (k_launchers_global s)") (simp add: fireBattery_def)

lemma fireLaunch_frame:
  "enemies (fireLaunch cfg s) = enemies s
     \<and> destroyedEnemies (fireLaunch cfg s) = destroyedEnemies s
     \<and> groundHits (fireLaunch cfg s) = groundHits s
     \<and> spawnedEnemies (fireLaunch cfg s) = spawnedEnemies s
     \<and> gameRunning (fireLaunch cfg s) = gameRunning s
     \<and> spawnDone (fireLaunch cfg s) = spawnDone s
     \<and> nextEnemyId (fireLaunch cfg s) = nextEnemyId s
     \<and> k_launchers_global (fireLaunch cfg s) = k_launchers_global s
     \<and> screen (fireLaunch cfg s) = screen s \<and> enemyThreads (fireLaunch cfg s) = enemyThreads s
     \<and> rocketThreads (fireLaunch cfg s) = rocketThreads s
     \<and> spawner (fireLaunch cfg s) = spawner s
     \<and> reloader (fireLaunch cfg s) = reloader s \<and> mainThread (fireLaunch cfg s) = mainThread s
     \<and> launchers (fireLaunch cfg s) = launchers s
     \<and> batteryMutex (fireLaunch cfg s) = batteryMutex s
     \<and> currentAim (fireLaunch cfg s) = currentAim s"
  by (simp add: fireLaunch_def Let_def)

lemma fireCreate_frame:
  "enemies (fireCreate s) = enemies s \<and> rockets (fireCreate s) = rockets s
     \<and> destroyedEnemies (fireCreate s) = destroyedEnemies s
     \<and> groundHits (fireCreate s) = groundHits s
     \<and> spawnedEnemies (fireCreate s) = spawnedEnemies s
     \<and> gameRunning (fireCreate s) = gameRunning s
     \<and> spawnDone (fireCreate s) = spawnDone s \<and> nextEnemyId (fireCreate s) = nextEnemyId s
     \<and> nextRocketId (fireCreate s) = nextRocketId s
     \<and> k_launchers_global (fireCreate s) = k_launchers_global s
     \<and> screen (fireCreate s) = screen s \<and> enemyThreads (fireCreate s) = enemyThreads s
     \<and> spawner (fireCreate s) = spawner s
     \<and> reloader (fireCreate s) = reloader s \<and> mainThread (fireCreate s) = mainThread s
     \<and> launchers (fireCreate s) = launchers s
     \<and> batteryMutex (fireCreate s) = batteryMutex s
     \<and> currentAim (fireCreate s) = currentAim s"
  by (simp add: fireCreate_def)

lemma playerStep_frame:
  assumes "playerStep cfg key s = Some s'"
  shows "enemies s' = enemies s
     \<and> destroyedEnemies s' = destroyedEnemies s \<and> groundHits s' = groundHits s
     \<and> spawnedEnemies s' = spawnedEnemies s
     \<and> spawnDone s' = spawnDone s \<and> nextEnemyId s' = nextEnemyId s
     \<and> k_launchers_global s' = k_launchers_global s
     \<and> screen s' = screen s \<and> enemyThreads s' = enemyThreads s
     \<and> spawner s' = spawner s
     \<and> reloader s' = reloader s \<and> mainThread s' = mainThread s
     \<and> batteryMutex s' = batteryMutex s"
proof (cases "p_pc (player s)")
  case P_Test
  with assms have "s' = s\<lparr>player := (player s)\<lparr>p_pc := (if gameRunning s then P_Key else P_Done)\<rparr>\<rparr>"
    by (simp add: playerStep_def)
  then show ?thesis by simp
next
  case P_Key
  have aim: "setAim a s = Some s' \<Longrightarrow> ?thesis" for a
    using setAim_frame [of a s s'] by simp
  show ?thesis
  proof (cases key)
    case ERR
    with assms P_Key have "s' = s\<lparr>player := (player s)\<lparr>p_pc := P_Test\<rparr>\<rparr>"
      by (simp add: playerStep_def)
    then show ?thesis by simp
  next
    case Key_Q
    with assms P_Key have "s' = s\<lparr>gameRunning := False, player := (player s)\<lparr>p_pc := P_Done\<rparr>\<rparr>"
      by (simp add: playerStep_def)
    then show ?thesis by simp
  next
    case Key_Up
    with assms P_Key show ?thesis by (intro aim [of AIM_UP]) (simp add: playerStep_def)
  next
    case Key_Left
    with assms P_Key show ?thesis by (intro aim [of AIM_LEFT]) (simp add: playerStep_def)
  next
    case Key_Right
    with assms P_Key show ?thesis by (intro aim [of AIM_RIGHT]) (simp add: playerStep_def)
  next
    case Key_Z
    with assms P_Key show ?thesis by (intro aim [of AIM_UPLEFT]) (simp add: playerStep_def)
  next
    case Key_C
    with assms P_Key show ?thesis by (intro aim [of AIM_UPRIGHT]) (simp add: playerStep_def)
  next
    case Key_Space
    with assms P_Key have "s' = fireBattery s"
      by (simp add: playerStep_def split: if_splits)
    with fireBattery_frame [of s] show ?thesis by simp
  next
    case Key_Other
    with assms P_Key have "s' = s\<lparr>player := (player s)\<lparr>p_pc := P_Test\<rparr>\<rparr>"
      by (simp add: playerStep_def)
    then show ?thesis by simp
  qed
next
  case P_Launch
  with assms have "s' = fireLaunch cfg s" by (simp add: playerStep_def)
  with fireLaunch_frame [of cfg s] show ?thesis by simp
next
  case P_Create
  with assms have "s' = fireCreate s" by (simp add: playerStep_def)
  with fireCreate_frame [of s] show ?thesis by simp
next
  case P_Done
  with assms show ?thesis by (simp add: playerStep_def)
qed

lemma mainStep_frame:
  "mainStep cfg s = Some s' \<Longrightarrow>
     enemies s' = enemies s \<and> rockets s' = rockets s
     \<and> destroyedEnemies s' = destroyedEnemies s \<and> groundHits s' = groundHits s
     \<and> spawnedEnemies s' = spawnedEnemies s
     \<and> spawnDone s' = spawnDone s \<and> nextEnemyId s' = nextEnemyId s
     \<and> nextRocketId s' = nextRocketId s \<and> k_launchers_global s' = k_launchers_global s
     \<and> enemyThreads s' = enemyThreads s
     \<and> rocketThreads s' = rocketThreads s \<and> spawner s' = spawner s
     \<and> reloader s' = reloader s \<and> player s' = player s
     \<and> launchers s' = launchers s \<and> batteryMutex s' = batteryMutex s
     \<and> currentAim s' = currentAim s"
  by (cases "m_pc (mainThread s)")
    (auto simp: mainStep_def Let_def split: if_splits option.splits)

lemma spawnerStep_frame:
  "spawnerStep cfg x s = Some s' \<Longrightarrow>
     rockets s' = rockets s
     \<and> destroyedEnemies s' = destroyedEnemies s \<and> groundHits s' = groundHits s
     \<and> gameRunning s' = gameRunning s
     \<and> nextRocketId s' = nextRocketId s \<and> k_launchers_global s' = k_launchers_global s
     \<and> screen s' = screen s
     \<and> rocketThreads s' = rocketThreads s
     \<and> reloader s' = reloader s \<and> player s' = player s \<and> mainThread s' = mainThread s
     \<and> launchers s' = launchers s \<and> batteryMutex s' = batteryMutex s
     \<and> currentAim s' = currentAim s"
  by (cases "s_pc (spawner s)") (auto simp: spawnerStep_def Let_def split: if_splits)

lemma enemyStep_frame:
  "enemyStep cfg n s = Some s' \<Longrightarrow>
     rockets s' = rockets s
     \<and> destroyedEnemies s' = destroyedEnemies s
     \<and> spawnedEnemies s' = spawnedEnemies s \<and> gameRunning s' = gameRunning s
     \<and> spawnDone s' = spawnDone s \<and> nextEnemyId s' = nextEnemyId s
     \<and> nextRocketId s' = nextRocketId s \<and> k_launchers_global s' = k_launchers_global s
     \<and> screen s' = screen s
     \<and> rocketThreads s' = rocketThreads s \<and> spawner s' = spawner s
     \<and> reloader s' = reloader s \<and> player s' = player s \<and> mainThread s' = mainThread s
     \<and> launchers s' = launchers s \<and> batteryMutex s' = batteryMutex s
     \<and> currentAim s' = currentAim s
     \<and> length (enemyThreads s') = length (enemyThreads s)"
  by (cases "et_pc (enemyThreads s ! n)")
    (auto simp: enemyStep_def Let_def split: if_splits prod.splits)

lemma rocketStep_frame:
  "rocketStep cfg n s = Some s' \<Longrightarrow>
     groundHits s' = groundHits s
     \<and> spawnedEnemies s' = spawnedEnemies s \<and> gameRunning s' = gameRunning s
     \<and> spawnDone s' = spawnDone s \<and> nextEnemyId s' = nextEnemyId s
     \<and> nextRocketId s' = nextRocketId s \<and> k_launchers_global s' = k_launchers_global s
     \<and> screen s' = screen s
     \<and> enemyThreads s' = enemyThreads s \<and> spawner s' = spawner s
     \<and> reloader s' = reloader s \<and> player s' = player s \<and> mainThread s' = mainThread s
     \<and> launchers s' = launchers s \<and> batteryMutex s' = batteryMutex s
     \<and> currentAim s' = currentAim s
     \<and> length (rocketThreads s') = length (rocketThreads s)
     \<and> (rt_pc (rocketThreads s ! n) \<noteq> R_Collide \<longrightarrow>
          enemies s' = enemies s \<and> destroyedEnemies s' = destroyedEnemies s)"
  by (cases "rt_pc (rocketThreads s ! n)")
    (auto simp: rocketStep_def Let_def split: if_splits prod.splits)

lemma spawnerStep_spawnInv:
  assumes "spawnerStep cfg x s = Some s'" "spawnInv cfg s"
  shows "spawnInv cfg s'"
proof (cases "s_pc (spawner s)")
  case S_Test
  with assms(1) have "s' = s\<lparr>spawner := (spawner s)\<lparr>s_pc :=
      (if s_i (spawner s) < m_enemies (settings cfg) \<and> gameRunning s then S_Push else S_Exit)\<rparr>\<rparr>"
    by (auto simp: spawnerStep_def Let_def)
  with assms(2) S_Test show ?thesis by (simp add: spawnInv_def)
next
  case S_Push
  with assms(1) have "s' = s\<lparr>nextEnemyId := nextEnemyId s + 1,
       enemies := enemies s @ [\<lparr>e_id = nextEnemyId s, e_x = x, e_y = 1, alive = True\<rparr>],
       spawner := (spawner s)\<lparr>s_pc := S_Create,
         s_e := \<lparr>e_id = nextEnemyId s, e_x = x, e_y = 1, alive = True\<rparr>\<rparr>\<rparr>"
    by (simp add: spawnerStep_def Let_def split: if_splits)
  with assms(2) S_Push show ?thesis by (simp add: spawnInv_def)
next
  case S_Create
  with assms(1) have "s' = s\<lparr>enemyThreads := enemyThreads s @
        [\<lparr>et_e = s_e (spawner s), et_pc = E_Test\<rparr>],
      spawner := (spawner s)\<lparr>s_pc := S_Inc\<rparr>\<rparr>"
    by (auto simp: spawnerStep_def Let_def)
  with assms(2) S_Create show ?thesis by (simp add: spawnInv_def)
next
  case S_Inc
  with assms(1) have "s' = s\<lparr>spawnedEnemies := spawnedEnemies s + 1,
      spawner := (spawner s)\<lparr>s_pc := S_Test, s_i := s_i (spawner s) + 1\<rparr>\<rparr>"
    by (auto simp: spawnerStep_def Let_def)
  with assms(2) S_Inc show ?thesis by (simp add: spawnInv_def)
next
  case S_Exit
  with assms(1) have "s' = s\<lparr>spawnDone := True, spawner := (spawner s)\<lparr>s_pc := S_Done\<rparr>\<rparr>"
    by (auto simp: spawnerStep_def Let_def)
  with assms(2) S_Exit show ?thesis by (simp add: spawnInv_def)
next
  case S_Done
  with assms show ?thesis by (auto simp: spawnerStep_def Let_def)
qed

lemma enemyStep_dead:
  assumes "enemyStep cfg n s = Some s'"
  shows "length (enemies s') = length (enemies s)
     \<and> int (dead (enemies s')) - groundHits s' = int (dead (enemies s)) - groundHits s"
proof -
  from assms have n: "n < length (enemyThreads s)"
    by (simp add: enemyStep_def split: if_splits)
  show ?thesis
  proof (cases "et_pc (enemyThreads s ! n)")
    case E_Test
    with assms n show ?thesis by (auto simp: enemyStep_def Let_def)
  next
    case E_Move
    with assms n show ?thesis
      by (auto simp: enemyStep_def Let_def updateEnemyY_effect)
  next
    case E_Ground
    obtain es' g' where g: "groundCheck (enemies s) (et_e (enemyThreads s ! n)) (groundHits s) = (es', g')"
      by (cases "groundCheck (enemies s) (et_e (enemyThreads s ! n)) (groundHits s)") auto
    from groundCheck_effect [OF g] g E_Ground assms n show ?thesis
      by (auto simp: enemyStep_def Let_def)
  next
    case E_Done
    with assms n show ?thesis by (auto simp: enemyStep_def)
  qed
qed

lemma enemyStep_spawnInv:
  assumes "enemyStep cfg n s = Some s'" "spawnInv cfg s"
  shows "spawnInv cfg s'"
  using enemyStep_dead [OF assms(1)] enemyStep_frame [OF assms(1)] assms(2)
  by (simp add: spawnInv_def)

lemma rocketStep_dead:
  assumes "rocketStep cfg n s = Some s'"
  shows "length (enemies s') = length (enemies s)
     \<and> int (dead (enemies s')) - destroyedEnemies s' =
         int (dead (enemies s)) - destroyedEnemies s"
proof (cases "rt_pc (rocketThreads s ! n) = R_Collide")
  case True
  from assms have n: "n < length (rocketThreads s)"
    by (simp add: rocketStep_def split: if_splits)
  obtain es' hit d' where c:
    "collisionCheck (enemies s) (rt_r (rocketThreads s ! n)) (destroyedEnemies s) = (es', hit, d')"
    by (cases "collisionCheck (enemies s) (rt_r (rocketThreads s ! n)) (destroyedEnemies s)") auto
  from collisionCheck_effect [OF c] c True assms n show ?thesis
    by (auto simp: rocketStep_def Let_def)
next
  case False
  with rocketStep_frame [OF assms] show ?thesis by simp
qed

lemma rocketStep_spawnInv:
  assumes "rocketStep cfg n s = Some s'" "spawnInv cfg s"
  shows "spawnInv cfg s'"
  using rocketStep_dead [OF assms(1)] rocketStep_frame [OF assms(1)] assms(2)
  by (simp add: spawnInv_def)

lemma reloadStep_spawnInv: "reloadStep s = Some s' \<Longrightarrow> spawnInv cfg s \<Longrightarrow> spawnInv cfg s'"
  using reloadStep_frame [of s s'] by (simp add: spawnInv_def)

lemma playerStep_spawnInv:
  "playerStep cfg key s = Some s' \<Longrightarrow> spawnInv cfg s \<Longrightarrow> spawnInv cfg s'"
  using playerStep_frame [of cfg key s s'] by (simp add: spawnInv_def)

lemma mainStep_spawnInv: "mainStep cfg s = Some s' \<Longrightarrow> spawnInv cfg s \<Longrightarrow> spawnInv cfg s'"
  using mainStep_frame [of cfg s s'] by (simp add: spawnInv_def)

lemma step_spawnInv: "step cfg l s = Some s' \<Longrightarrow> spawnInv cfg s \<Longrightarrow> spawnInv cfg s'"
  by (cases l)
    (simp_all add: spawnerStep_spawnInv enemyStep_spawnInv rocketStep_spawnInv
      reloadStep_spawnInv playerStep_spawnInv mainStep_spawnInv)

lemma run_spawnInv: "run cfg ls s = Some s' \<Longrightarrow> spawnInv cfg s \<Longrightarrow> spawnInv cfg s'"
proof (induction ls arbitrary: s)
  case Nil
  then show ?case by simp
next
  case (Cons l ls)
  then obtain s1 where s1: "step cfg l s = Some s1" "run cfg ls s1 = Some s'"
    by (auto split: option.splits)
  from Cons.IH [OF s1(2) step_spawnInv [OF s1(1) Cons.prems(2)]] show ?case .
qed

lemma spawnerStep_spawned:
  "spawnerStep cfg x s = Some s' \<Longrightarrow> spawnedEnemies s \<le> spawnedEnemies s'"
  by (cases "s_pc (spawner s)") (auto simp: spawnerStep_def Let_def split: if_splits)

lemma step_spawned: "step cfg l s = Some s' \<Longrightarrow> spawnedEnemies s \<le> spawnedEnemies s'"
  using spawnerStep_spawned [of cfg _ s s'] enemyStep_frame [of cfg _ s s']
    rocketStep_frame [of cfg _ s s'] reloadStep_frame [of s s'] playerStep_frame [of cfg _ s s']
    mainStep_frame [of cfg s s']
  by (cases l) auto

lemma step_countersLe: "step cfg l s = Some s' \<Longrightarrow> countersLe s s'"
  using step_flags [of cfg l s s'] step_spawned [of cfg l s s']
  by (simp add: countersLe_def flagStep_def)

lemma run_countersLe: "run cfg ls s = Some s' \<Longrightarrow> countersLe s s'"
proof (induction ls arbitrary: s)
  case Nil
  then show ?case by (simp add: countersLe_def)
next
  case (Cons l ls)
  then obtain s1 where s1: "step cfg l s = Some s1" "run cfg ls s1 = Some s'"
    by (auto split: option.splits)
  from Cons.IH [OF s1(2)] step_countersLe [OF s1(1)] show ?case
    by (simp add: countersLe_def)
qed

section \<open>The rocket list\<close>

lemma rocketsKept_refl [simp]: "rocketsKept rs rs"
  by (simp add: rocketsKept_def)

lemma rocketsKept_length: "rocketsKept rs rs' \<Longrightarrow> length rs \<le> length rs'"
proof -
  assume "rocketsKept rs rs'"
  then have "length (take (length rs) (map r_id rs')) = length (map r_id rs)"
    by (simp only: rocketsKept_def)
  then show ?thesis by simp
qed

lemma rocketsKept_trans: "rocketsKept a b \<Longrightarrow> rocketsKept b c \<Longrightarrow> rocketsKept a c"
proof -
  assume ab: "rocketsKept a b" and bc: "rocketsKept b c"
  from rocketsKept_length [OF ab] have l: "length a \<le> length b" .
  have "take (length a) (map r_id c) = take (length a) (take (length b) (map r_id c))"
    using l by (simp add: min_def)
  also have "\<dots> = take (length a) (map r_id b)" using bc by (simp add: rocketsKept_def)
  also have "\<dots> = map r_id a" using ab by (simp add: rocketsKept_def)
  finally show ?thesis by (simp add: rocketsKept_def)
qed

lemma updateRocketPos_ids [simp]: "map r_id (updateRocketPos rs r) = map r_id rs"
  by (induction rs) auto

lemma markInactive_ids [simp]: "map r_id (markInactive rs r) = map r_id rs"
  by (induction rs) auto

lemma markInactive_marks:
  "r_id r \<in> r_id ` set rs \<Longrightarrow> \<exists>gr \<in> set (markInactive rs r). r_id gr = r_id r \<and> \<not> active gr"
  by (induction rs) auto

lemma length_updateRocketPos [simp]: "length (updateRocketPos rs r) = length rs"
  by (induction rs) auto

lemma length_markInactive [simp]: "length (markInactive rs r) = length rs"
  by (induction rs) auto

lemma removeRocketById_shrinks:
  "i \<in> r_id ` set rs \<Longrightarrow> length (removeRocketById i rs) < length rs"
  unfolding removeRocketById_def
  by (induction rs) (auto simp: less_Suc_eq_le)

lemma rocketStep_rockets:
  assumes "rocketStep cfg n s = Some s'"
  shows "map r_id (rockets s') = map r_id (rockets s)"
  using assms
  by (cases "rt_pc (rocketThreads s ! n)")
    (auto simp: rocketStep_def Let_def split: if_splits prod.splits)

lemma playerStep_rockets:
  assumes "playerStep cfg key s = Some s'"
  shows "rocketStepOk (T_Player key) s s'"
proof (cases "p_pc (player s)")
  case P_Test
  with assms have "s' = s\<lparr>player := (player s)\<lparr>p_pc := (if gameRunning s then P_Key else P_Done)\<rparr>\<rparr>"
    by (simp add: playerStep_def)
  with P_Test show ?thesis by (simp add: rocketStepOk_def pending_def firedBy_def)
next
  case P_Key
  have aim: "setAim a s = Some s' \<Longrightarrow> key \<noteq> Key_Space \<Longrightarrow> ?thesis" for a
    using P_Key by (auto simp: setAim_def rocketStepOk_def pending_def firedBy_def split: if_splits)
  show ?thesis
  proof (cases key)
    case ERR
    with assms P_Key have "s' = s\<lparr>player := (player s)\<lparr>p_pc := P_Test\<rparr>\<rparr>"
      by (simp add: playerStep_def)
    with P_Key ERR show ?thesis by (simp add: rocketStepOk_def pending_def firedBy_def)
  next
    case Key_Q
    with assms P_Key have "s' = s\<lparr>gameRunning := False, player := (player s)\<lparr>p_pc := P_Done\<rparr>\<rparr>"
      by (simp add: playerStep_def)
    with P_Key Key_Q show ?thesis by (simp add: rocketStepOk_def pending_def firedBy_def)
  next
    case Key_Up
    with assms P_Key show ?thesis by (intro aim [of AIM_UP]) (simp_all add: playerStep_def)
  next
    case Key_Left
    with assms P_Key show ?thesis by (intro aim [of AIM_LEFT]) (simp_all add: playerStep_def)
  next
    case Key_Right
    with assms P_Key show ?thesis by (intro aim [of AIM_RIGHT]) (simp_all add: playerStep_def)
  next
    case Key_Z
    with assms P_Key show ?thesis by (intro aim [of AIM_UPLEFT]) (simp_all add: playerStep_def)
  next
    case Key_C
    with assms P_Key show ?thesis by (intro aim [of AIM_UPRIGHT]) (simp_all add: playerStep_def)
  next
    case Key_Space
    with assms P_Key have s': "s' = fireBattery s" and m: "\<not> batteryMutex s"
      by (simp_all add: playerStep_def split: if_splits)
    obtain ls' fired where t: "tryFire (launchers s) (k_launchers_global s) = (ls', fired)"
      by (cases "tryFire (launchers s) (k_launchers_global s)") auto
    with s' m P_Key Key_Space show ?thesis
      by (simp add: rocketStepOk_def pending_def firedBy_def fireBattery_def)
  next
    case Key_Other
    with assms P_Key have "s' = s\<lparr>player := (player s)\<lparr>p_pc := P_Test\<rparr>\<rparr>"
      by (simp add: playerStep_def)
    with P_Key Key_Other show ?thesis by (simp add: rocketStepOk_def pending_def firedBy_def)
  qed
next
  case P_Launch
  with assms have "s' = fireLaunch cfg s" by (simp add: playerStep_def)
  with P_Launch show ?thesis
    by (simp add: rocketStepOk_def pending_def firedBy_def fireLaunch_def Let_def rocketsKept_def)
next
  case P_Create
  with assms have "s' = fireCreate s" by (simp add: playerStep_def)
  with P_Create show ?thesis
    by (simp add: rocketStepOk_def pending_def firedBy_def fireCreate_def)
next
  case P_Done
  with assms show ?thesis by (simp add: playerStep_def)
qed

lemma step_rockets: "step cfg l s = Some s' \<Longrightarrow> rocketStepOk l s s'"
proof (cases l)
  case (T_Spawner x)
  assume "step cfg l s = Some s'"
  with T_Spawner spawnerStep_frame [of cfg x s s'] show ?thesis
    by (simp add: rocketStepOk_def pending_def firedBy_def)
next
  case (T_Enemy n)
  assume "step cfg l s = Some s'"
  with T_Enemy enemyStep_frame [of cfg n s s'] show ?thesis
    by (simp add: rocketStepOk_def pending_def firedBy_def)
next
  case (T_Rocket n)
  assume a: "step cfg l s = Some s'"
  with T_Rocket rocketStep_frame [of cfg n s s'] rocketStep_rockets [of cfg n s s']
  have "player s' = player s" "map r_id (rockets s') = map r_id (rockets s)" by simp_all
  moreover from this(2) have "length (rockets s') = length (rockets s)"
    by (metis length_map)
  ultimately show ?thesis using T_Rocket
    by (simp add: rocketStepOk_def pending_def firedBy_def rocketsKept_def)
next
  case T_Reload
  assume "step cfg l s = Some s'"
  with T_Reload reloadStep_frame [of s s'] show ?thesis
    by (simp add: rocketStepOk_def pending_def firedBy_def)
next
  case (T_Player key)
  assume "step cfg l s = Some s'"
  with T_Player playerStep_rockets [of cfg key s s'] show ?thesis by simp
next
  case T_Main
  assume "step cfg l s = Some s'"
  with T_Main mainStep_frame [of cfg s s'] show ?thesis
    by (simp add: rocketStepOk_def pending_def firedBy_def)
qed

lemma run_rockets:
  "run cfg ls s = Some s' \<Longrightarrow>
     rocketsKept (rockets s) (rockets s')
     \<and> length (rockets s') + pending s' = length (rockets s) + pending s + firesIn cfg ls s"
proof (induction ls arbitrary: s)
  case Nil
  then show ?case by simp
next
  case (Cons l ls)
  then obtain s1 where s1: "step cfg l s = Some s1" "run cfg ls s1 = Some s'"
    by (auto split: option.splits)
  from step_rockets [OF s1(1)] Cons.IH [OF s1(2)] s1(1) show ?case
    by (auto simp: rocketStepOk_def intro: rocketsKept_trans)
qed

section \<open>The battery\<close>

lemma batteryInv_init: "0 \<le> k_launchers (settings cfg) \<Longrightarrow> batteryInv (init cfg)"
  by (simp add: batteryInv_def init_def)

lemma length_tryFire: "length (fst (tryFire ls k)) = length ls"
  by (simp add: tryFire_def Let_def)

lemma reloadStep_batteryInv:
  assumes "reloadStep s = Some s'" "batteryInv s"
  shows "batteryInv s'"
proof (cases "l_pc (reloader s)")
  case L_Test
  with assms(1) have "s' = s\<lparr>reloader := (reloader s)\<lparr>l_pc := (if gameRunning s then L_Lock else L_Done)\<rparr>\<rparr>"
    by (auto simp: reloadStep_def Let_def)
  with assms(2) L_Test show ?thesis by (simp add: batteryInv_def)
next
  case L_Lock
  with assms show ?thesis
    by (auto simp: reloadStep_def Let_def batteryInv_def split: if_splits)
next
  case L_Wait
  with assms show ?thesis
    by (auto simp: reloadStep_def Let_def batteryInv_def split: if_splits)
next
  case L_For
  with assms show ?thesis
    by (auto simp: reloadStep_def Let_def batteryInv_def split: if_splits)
next
  case L_Sleep
  with assms show ?thesis
    by (auto simp: reloadStep_def Let_def batteryInv_def split: if_splits)
next
  case L_Done
  with assms show ?thesis by (simp add: reloadStep_def)
qed

lemma playerStep_launchers:
  assumes "playerStep cfg key s = Some s'"
  shows "length (launchers s') = length (launchers s)"
proof (cases "p_pc (player s) = P_Key \<and> key = Key_Space")
  case True
  with assms have "s' = fireBattery s" by (simp add: playerStep_def split: if_splits)
  then show ?thesis
    using length_tryFire [of "launchers s" "k_launchers_global s"]
    by (cases "tryFire (launchers s) (k_launchers_global s)") (simp add: fireBattery_def)
next
  case False
  show ?thesis
  proof (cases "p_pc (player s)")
    case P_Key
    with False assms show ?thesis
      by (cases key) (auto simp: playerStep_def setAim_def split: if_splits)
  qed (use assms in \<open>auto simp: playerStep_def fireLaunch_def fireCreate_def Let_def\<close>)
qed

lemma step_batteryInv:
  assumes "step cfg l s = Some s'" "batteryInv s"
  shows "batteryInv s'"
proof (cases l)
  case (T_Spawner x)
  with assms spawnerStep_frame [of cfg x s s'] show ?thesis by (auto simp: batteryInv_def)
next
  case (T_Enemy n)
  with assms enemyStep_frame [of cfg n s s'] show ?thesis by (auto simp: batteryInv_def)
next
  case (T_Rocket n)
  with assms rocketStep_frame [of cfg n s s'] show ?thesis by (auto simp: batteryInv_def)
next
  case T_Reload
  with assms reloadStep_batteryInv [of s s'] show ?thesis by simp
next
  case (T_Player key)
  with assms playerStep_frame [of cfg key s s'] playerStep_launchers [of cfg key s s']
  show ?thesis by (auto simp: batteryInv_def)
next
  case T_Main
  with assms mainStep_frame [of cfg s s'] show ?thesis by (auto simp: batteryInv_def)
qed

lemma run_batteryInv: "run cfg ls s = Some s' \<Longrightarrow> batteryInv s \<Longrightarrow> batteryInv s'"
proof (induction ls arbitrary: s)
  case Nil
  then show ?case by simp
next
  case (Cons l ls)
  then obtain s1 where s1: "step cfg l s = Some s1" "run cfg ls s1 = Some s'"
    by (auto split: option.splits)
  from Cons.IH [OF s1(2) step_batteryInv [OF s1(1) Cons.prems(2)]] show ?case .
qed

lemma list_all_id_replicate: "list_all (\<lambda>b. b) ls \<longleftrightarrow> ls = replicate (length ls) True"
  by (induction ls) auto

lemma tryFire_all_loaded:
  assumes "list_all (\<lambda>b. b) ls" "k = int (length ls)" "1 \<le> k"
  shows "tryFire ls k = (ls[0 := False], True)"
proof -
  from assms have "0 < length ls" "ls ! 0" by (cases ls; simp)+
  then show ?thesis using tryFire_first [of k ls 0] assms(2) by simp
qed

lemma list_all_update: "list_all P xs \<Longrightarrow> P x \<Longrightarrow> list_all P (xs[i := x])"
  by (induction xs arbitrary: i) (auto split: nat.splits)

lemma firstInv_init: "firstInv (init cfg)"
  by (simp add: firstInv_def unfired_def init_def list_all_length)

lemma reloadStep_firstInv:
  assumes "reloadStep s = Some s'" "firstInv s" "batteryInv s"
  shows "firstInv s'"
proof -
  have f: "rockets s' = rockets s" "player s' = player s"
    using reloadStep_frame [OF assms(1)] by simp_all
  show ?thesis
  proof (cases "l_pc (reloader s) = L_Sleep")
    case False
    with assms(1) have "launchers s' = launchers s"
      by (cases "l_pc (reloader s)") (auto simp: reloadStep_def Let_def split: if_splits)
    with f assms(2) show ?thesis by (simp add: firstInv_def unfired_def)
  next
    case True
    with assms(3) have i: "nat (l_i (reloader s)) < length (launchers s)"
      by (auto simp: batteryInv_def)
    from True assms(1) have "launchers s' =
        (if \<not> launchers s ! nat (l_i (reloader s))
         then (launchers s)[nat (l_i (reloader s)) := True] else launchers s)"
      by (auto simp: reloadStep_def Let_def split: if_splits)
    moreover have "list_all (\<lambda>b. b) (launchers s) \<Longrightarrow>
        list_all (\<lambda>b. b) ((launchers s)[nat (l_i (reloader s)) := True])"
      by (rule list_all_update) simp_all
    ultimately show ?thesis using f assms(2) by (auto simp: firstInv_def unfired_def)
  qed
qed

lemma playerStep_firstInv:
  assumes "playerStep cfg key s = Some s'" "firstInv s" "batteryInv s"
    "1 \<le> k_launchers_global s"
  shows "firstInv s'"
proof (cases "p_pc (player s)")
  case P_Test
  with assms(1) have "s' = s\<lparr>player := (player s)\<lparr>p_pc := (if gameRunning s then P_Key else P_Done)\<rparr>\<rparr>"
    by (simp add: playerStep_def)
  with assms(2) P_Test show ?thesis by (simp add: firstInv_def unfired_def)
next
  case P_Key
  have aim: "setAim a s = Some s' \<Longrightarrow> ?thesis" for a
    using assms(2) P_Key by (auto simp: setAim_def firstInv_def unfired_def split: if_splits)
  show ?thesis
  proof (cases key)
    case ERR
    with assms(1) P_Key have "s' = s\<lparr>player := (player s)\<lparr>p_pc := P_Test\<rparr>\<rparr>"
      by (simp add: playerStep_def)
    with assms(2) P_Key show ?thesis by (simp add: firstInv_def unfired_def)
  next
    case Key_Q
    with assms(1) P_Key have "s' = s\<lparr>gameRunning := False, player := (player s)\<lparr>p_pc := P_Done\<rparr>\<rparr>"
      by (simp add: playerStep_def)
    with assms(2) P_Key show ?thesis by (simp add: firstInv_def unfired_def)
  next
    case Key_Up
    with assms(1) P_Key show ?thesis by (intro aim [of AIM_UP]) (simp add: playerStep_def)
  next
    case Key_Left
    with assms(1) P_Key show ?thesis by (intro aim [of AIM_LEFT]) (simp add: playerStep_def)
  next
    case Key_Right
    with assms(1) P_Key show ?thesis by (intro aim [of AIM_RIGHT]) (simp add: playerStep_def)
  next
    case Key_Z
    with assms(1) P_Key show ?thesis by (intro aim [of AIM_UPLEFT]) (simp add: playerStep_def)
  next
    case Key_C
    with assms(1) P_Key show ?thesis by (intro aim [of AIM_UPRIGHT]) (simp add: playerStep_def)
  next
    case Key_Space
    with assms(1) P_Key have s': "s' = fireBattery s"
      by (simp add: playerStep_def split: if_splits)
    show ?thesis
    proof (cases "rockets s = []")
      case True
      with P_Key assms(2) have "list_all (\<lambda>b. b) (launchers s)"
        by (simp add: firstInv_def unfired_def)
      from tryFire_all_loaded [OF this _ assms(4)] assms(3)
      have "tryFire (launchers s) (k_launchers_global s) = ((launchers s)[0 := False], True)"
        by (simp add: batteryInv_def)
      with s' show ?thesis by (simp add: fireBattery_def firstInv_def unfired_def)
    next
      case False
      then show ?thesis using s' fireBattery_frame [of s]
        by (simp add: firstInv_def unfired_def)
    qed
  next
    case Key_Other
    with assms(1) P_Key have "s' = s\<lparr>player := (player s)\<lparr>p_pc := P_Test\<rparr>\<rparr>"
      by (simp add: playerStep_def)
    with assms(2) P_Key show ?thesis by (simp add: firstInv_def unfired_def)
  qed
next
  case P_Launch
  with assms(1) have "s' = fireLaunch cfg s" by (simp add: playerStep_def)
  then show ?thesis by (simp add: firstInv_def unfired_def fireLaunch_def Let_def)
next
  case P_Create
  with assms(1) have "s' = fireCreate s" by (simp add: playerStep_def)
  with assms(2) P_Create show ?thesis by (simp add: firstInv_def unfired_def fireCreate_def)
next
  case P_Done
  with assms show ?thesis by (simp add: playerStep_def)
qed

lemma step_firstInv:
  assumes "step cfg l s = Some s'" "firstInv s" "batteryInv s" "1 \<le> k_launchers_global s"
  shows "firstInv s'"
proof (cases l)
  case (T_Spawner x)
  with assms spawnerStep_frame [of cfg x s s'] show ?thesis
    by (simp add: firstInv_def unfired_def)
next
  case (T_Enemy n)
  with assms enemyStep_frame [of cfg n s s'] show ?thesis
    by (simp add: firstInv_def unfired_def)
next
  case (T_Rocket n)
  with assms(1) have r: "rocketStep cfg n s = Some s'" by simp
  from rocketStep_rockets [OF r] have "rockets s' = [] \<longleftrightarrow> rockets s = []"
    by (metis map_is_Nil_conv)
  with assms(2) rocketStep_frame [OF r] show ?thesis
    by (simp add: firstInv_def unfired_def)
next
  case T_Reload
  with assms reloadStep_firstInv [of s s'] show ?thesis by simp
next
  case (T_Player key)
  with assms playerStep_firstInv [of cfg key s s'] show ?thesis by simp
next
  case T_Main
  with assms mainStep_frame [of cfg s s'] show ?thesis
    by (simp add: firstInv_def unfired_def)
qed

lemma step_k: "step cfg l s = Some s' \<Longrightarrow> k_launchers_global s' = k_launchers_global s"
  using spawnerStep_frame [of cfg _ s s'] enemyStep_frame [of cfg _ s s']
    rocketStep_frame [of cfg _ s s'] reloadStep_frame [of s s'] playerStep_frame [of cfg _ s s']
    mainStep_frame [of cfg s s']
  by (cases l) auto

lemma run_firstInv:
  "run cfg ls s = Some s' \<Longrightarrow> firstInv s \<Longrightarrow> batteryInv s \<Longrightarrow> 1 \<le> k_launchers_global s \<Longrightarrow>
   firstInv s' \<and> batteryInv s' \<and> k_launchers_global s' = k_launchers_global s"
proof (induction ls arbitrary: s)
  case Nil
  then show ?case by simp
next
  case (Cons l ls)
  then obtain s1 where s1: "step cfg l s = Some s1" "run cfg ls s1 = Some s'"
    by (auto split: option.splits)
  have k: "k_launchers_global s1 = k_launchers_global s" using step_k [OF s1(1)] .
  from Cons.IH [OF s1(2) step_firstInv [OF s1(1) Cons.prems(2-4)]
      step_batteryInv [OF s1(1) Cons.prems(3)]] k Cons.prems(4)
  show ?case by simp
qed

section \<open>The reload thread\<close>

lemma passLoads_outside: "\<not> inPass s \<Longrightarrow> passLoads cfg ls s = []"
  by (cases ls) (auto split: option.splits)

lemma step_launchers_length:
  assumes "step cfg l s = Some s'"
  shows "length (launchers s') = length (launchers s)"
proof (cases l)
  case (T_Spawner x)
  with assms spawnerStep_frame [of cfg x s s'] show ?thesis by simp
next
  case (T_Enemy n)
  with assms enemyStep_frame [of cfg n s s'] show ?thesis by simp
next
  case (T_Rocket n)
  with assms rocketStep_frame [of cfg n s s'] show ?thesis by simp
next
  case T_Reload
  with assms show ?thesis
    by (cases "l_pc (reloader s)") (auto simp: reloadStep_def Let_def split: if_splits)
next
  case (T_Player key)
  with assms playerStep_launchers [of cfg key s s'] show ?thesis by simp
next
  case T_Main
  with assms mainStep_frame [of cfg s s'] show ?thesis by simp
qed

lemma step_reloader_frame:
  assumes "step cfg l s = Some s'" "l \<noteq> T_Reload"
  shows "reloader s' = reloader s"
  using assms spawnerStep_frame [of cfg _ s s'] enemyStep_frame [of cfg _ s s']
    rocketStep_frame [of cfg _ s s'] playerStep_frame [of cfg _ s s'] mainStep_frame [of cfg s s']
  by (cases l) auto

text \<open>What a step of the reload thread does, one program counter at a time.\<close>

lemma reloadStep_For:
  assumes "reloadStep s = Some s'" "l_pc (reloader s) = L_For"
  shows "launchers s' = launchers s
     \<and> (l_i (reloader s) < k_launchers_global s \<and> gameRunning s
          \<and> \<not> launchers s ! nat (l_i (reloader s)) \<longrightarrow>
          l_pc (reloader s') = L_Sleep \<and> l_i (reloader s') = l_i (reloader s)
          \<and> \<not> batteryMutex s')
     \<and> (l_i (reloader s) < k_launchers_global s \<and> gameRunning s
          \<and> launchers s ! nat (l_i (reloader s)) \<longrightarrow>
          l_pc (reloader s') = L_For \<and> l_i (reloader s') = l_i (reloader s) + 1)
     \<and> (\<not> (l_i (reloader s) < k_launchers_global s \<and> gameRunning s) \<longrightarrow>
          l_pc (reloader s') = L_Test \<and> \<not> batteryMutex s')"
  using assms by (auto simp: reloadStep_def Let_def split: if_splits)

lemma reloadStep_Sleep:
  assumes "reloadStep s = Some s'" "l_pc (reloader s) = L_Sleep"
  shows "\<not> batteryMutex s \<and> batteryMutex s'
     \<and> l_pc (reloader s') = L_For \<and> l_i (reloader s') = l_i (reloader s) + 1
     \<and> launchers s' =
         (if launchers s ! nat (l_i (reloader s)) then launchers s
          else (launchers s)[nat (l_i (reloader s)) := True])"
  using assms by (auto simp: reloadStep_def Let_def split: if_splits)

lemma reloadStep_other:
  assumes "reloadStep s = Some s'" "l_pc (reloader s) \<noteq> L_Sleep"
  shows "launchers s' = launchers s"
  using assms
  by (cases "l_pc (reloader s)") (auto simp: reloadStep_def Let_def split: if_splits)

lemma loaded_update:
  "i < length ls \<Longrightarrow> \<not> ls ! i \<Longrightarrow> loaded (ls[i := True]) = loaded ls + 1"
proof (induction ls arbitrary: i)
  case Nil
  then show ?case by simp
next
  case (Cons b ls)
  then show ?case by (cases i) (auto simp: loaded_def)
qed

lemma reloadStep_loaded:
  assumes "reloadStep s = Some s'" "batteryInv s"
  shows "loaded (launchers s') = loaded (launchers s) + length (loadsNow T_Reload s)"
proof (cases "l_pc (reloader s) = L_Sleep")
  case True
  with assms(2) have i: "nat (l_i (reloader s)) < length (launchers s)"
    by (auto simp: batteryInv_def)
  from reloadStep_Sleep [OF assms(1) True] True loaded_update [OF i] show ?thesis
    by (auto simp: loadsNow_def)
next
  case False
  with reloadStep_other [OF assms(1)] show ?thesis by (simp add: loadsNow_def)
qed

lemma passLoads_sorted:
  "batteryInv s \<Longrightarrow>
     sorted_wrt (<) (passLoads cfg ls s)
     \<and> (\<forall>j \<in> set (passLoads cfg ls s). nat (l_i (reloader s)) \<le> j \<and> j < length (launchers s))"
proof (induction ls arbitrary: s)
  case Nil
  then show ?case by simp
next
  case (Cons l ls)
  show ?case
  proof (cases "step cfg l s")
    case None
    then show ?thesis by simp
  next
    case (Some s')
    note st = Some
    from step_batteryInv [OF st Cons.prems] have inv': "batteryInv s'" .
    note IH = Cons.IH [OF inv']
    have len: "length (launchers s') = length (launchers s)"
      using step_launchers_length [OF st] .
    show ?thesis
    proof (cases "inPass s")
      case False
      with st show ?thesis by simp
    next
      case True
      show ?thesis
      proof (cases "l = T_Reload")
        case False
        then have "loadsNow l s = []" by (simp add: loadsNow_def)
        moreover have "reloader s' = reloader s" using step_reloader_frame [OF st False] .
        ultimately show ?thesis using IH st True len by simp
      next
        case l: True
        with st have rs: "reloadStep s = Some s'" by simp
        show ?thesis
        proof (cases "l_pc (reloader s) = L_Sleep")
          case sl: True
          from Cons.prems sl have i: "nat (l_i (reloader s)) < length (launchers s)"
            and i0: "0 \<le> l_i (reloader s)"
            by (auto simp: batteryInv_def)
          from reloadStep_Sleep [OF rs sl]
          have n: "l_i (reloader s') = l_i (reloader s) + 1" by simp
          with i0 have lt: "nat (l_i (reloader s)) < nat (l_i (reloader s'))" by simp
          have "loadsNow l s = [] \<or> loadsNow l s = [nat (l_i (reloader s))]"
            by (simp add: loadsNow_def)
          then show ?thesis
          proof
            assume "loadsNow l s = []"
            with IH st True len lt show ?thesis by (auto simp: less_imp_le_nat)
          next
            assume "loadsNow l s = [nat (l_i (reloader s))]"
            with IH st True len lt i show ?thesis by auto
          qed
        next
          case nsl: False
          with True have f: "l_pc (reloader s) = L_For" by (simp add: inPass_def)
          from nsl l have e: "loadsNow l s = []" by (simp add: loadsNow_def)
          from Cons.prems have i0: "0 \<le> l_i (reloader s)" by (simp add: batteryInv_def)
          show ?thesis
          proof (cases "inPass s'")
            case False
            from passLoads_outside [OF this] e st True show ?thesis by simp
          next
            case True
            with reloadStep_For [OF rs f]
            have "l_i (reloader s) \<le> l_i (reloader s')"
              by (cases "l_i (reloader s) < k_launchers_global s \<and> gameRunning s";
                  cases "launchers s ! nat (l_i (reloader s))") (auto simp: inPass_def)
            with i0 have "nat (l_i (reloader s)) \<le> nat (l_i (reloader s'))" by simp
            with IH e st \<open>inPass s\<close> len show ?thesis by auto
          qed
        qed
      qed
    qed
  qed
qed

section \<open>An enemy thread whose record has been killed\<close>

lemma updateEnemyY_ids [simp]: "map e_id (updateEnemyY es e) = map e_id es"
  by (induction es) auto

lemma updateEnemyY_alive [simp]: "map alive (updateEnemyY es e) = map alive es"
  by (induction es) auto













lemma run_append:
  "run cfg (xs @ ys) s = (case run cfg xs s of None \<Rightarrow> None | Some s' \<Rightarrow> run cfg ys s')"
  by (induction xs arbitrary: s) (auto split: option.splits)






section \<open>The main loop among the other threads\<close>

lemma mainInv_init: "mainInv cfg (init cfg)"
  by (simp add: mainInv_def init_def)

lemma mainStep_mainInv:
  assumes "mainStep cfg s = Some s'" "mainInv cfg s"
  shows "mainInv cfg s'"
proof (cases "m_pc (mainThread s)")
  case M_Test
  with assms show ?thesis by (auto simp: mainStep_def Let_def mainInv_def split: if_splits)
next
  case M_LoadD
  with assms show ?thesis by (auto simp: mainStep_def Let_def mainInv_def)
next
  case M_LoadG
  with assms show ?thesis
    by (auto simp: mainStep_def Let_def mainInv_def thresholds_def split: if_splits)
next
  case M_Spawn
  with assms show ?thesis by (auto simp: mainStep_def Let_def mainInv_def split: if_splits)
next
  case M_Scan
  with assms show ?thesis
    by (auto simp: mainStep_def Let_def mainInv_def split: if_splits)
next
  case M_Stop
  with assms show ?thesis by (auto simp: mainStep_def Let_def mainInv_def)
next
  case M_Done
  with assms show ?thesis by (simp add: mainStep_def)
qed

lemma step_gameRunning: "step cfg l s = Some s' \<Longrightarrow> gameRunning s' \<Longrightarrow> gameRunning s"
proof (cases l)
  case (T_Spawner x)
  assume "step cfg l s = Some s'" "gameRunning s'"
  with T_Spawner spawnerStep_frame [of cfg x s s'] show ?thesis by simp
next
  case (T_Enemy n)
  assume "step cfg l s = Some s'" "gameRunning s'"
  with T_Enemy enemyStep_frame [of cfg n s s'] show ?thesis by simp
next
  case (T_Rocket n)
  assume "step cfg l s = Some s'" "gameRunning s'"
  with T_Rocket rocketStep_frame [of cfg n s s'] show ?thesis by simp
next
  case T_Reload
  assume "step cfg l s = Some s'" "gameRunning s'"
  with T_Reload reloadStep_frame [of s s'] show ?thesis by simp
next
  case (T_Player key)
  assume a: "step cfg l s = Some s'" "gameRunning s'"
  show ?thesis
  proof (cases "p_pc (player s)")
    case P_Key
    with a T_Player fireBattery_frame [of s] show ?thesis
      by (cases key) (auto simp: playerStep_def setAim_def split: if_splits)
  qed (use a T_Player fireLaunch_frame [of cfg s] fireCreate_frame [of s] in
        \<open>auto simp: playerStep_def split: if_splits\<close>)
next
  case T_Main
  assume a: "step cfg l s = Some s'" "gameRunning s'"
  with T_Main show ?thesis
    by (cases "m_pc (mainThread s)")
      (auto simp: mainStep_def Let_def split: if_splits option.splits)
qed

lemma step_mainInv:
  assumes "step cfg l s = Some s'" "mainInv cfg s"
  shows "mainInv cfg s'"
proof (cases "l = T_Main")
  case True
  with assms mainStep_mainInv [of cfg s s'] show ?thesis by simp
next
  case False
  have "mainThread s' = mainThread s \<and> screen s' = screen s"
    using False assms(1) spawnerStep_frame [of cfg _ s s'] enemyStep_frame [of cfg _ s s']
      rocketStep_frame [of cfg _ s s'] reloadStep_frame [of s s'] playerStep_frame [of cfg _ s s']
    by (cases l) auto
  with assms(2) step_gameRunning [OF assms(1)] show ?thesis
    by (auto simp: mainInv_def)
qed

lemma run_mainInv: "run cfg ls s = Some s' \<Longrightarrow> mainInv cfg s \<Longrightarrow> mainInv cfg s'"
proof (induction ls arbitrary: s)
  case Nil
  then show ?case by simp
next
  case (Cons l ls)
  then obtain s1 where s1: "step cfg l s = Some s1" "run cfg ls s1 = Some s'"
    by (auto split: option.splits)
  from Cons.IH [OF s1(2) step_mainInv [OF s1(1) Cons.prems(2)]] show ?case .
qed

text \<open>
  The steps of the main thread from the first load on, with no other thread in
  between, print what \<open>tick\<close> prints on the values of the state.
\<close>

lemma main_steps_tick:
  assumes "m_pc (mainThread s) = M_LoadD"
  shows "\<exists>s'. run cfg (replicate (mainTickSteps cfg s) T_Main) s = Some s'
     \<and> screen s' = screen s @
         fst (tick (m_enemies (settings cfg)) (destroyedEnemies s) (groundHits s)
                (spawnDone s) (enemies s))
     \<and> gameRunning s' =
         (gameRunning s \<and> snd (tick (m_enemies (settings cfg)) (destroyedEnemies s)
                (groundHits s) (spawnDone s) (enemies s)))
     \<and> m_pc (mainThread s') =
         (if snd (tick (m_enemies (settings cfg)) (destroyedEnemies s)
                (groundHits s) (spawnDone s) (enemies s)) then M_Test else M_Stop)"
proof (cases "thresholds (m_enemies (settings cfg)) (destroyedEnemies s) (groundHits s)")
  case (Some out)
  with assms show ?thesis
    by (simp add: mainTickSteps_def numeral_2_eq_2 mainStep_def tick_def)
next
  case None
  show ?thesis
  proof (cases "spawnDone s")
    case False
    with None assms show ?thesis
      by (simp add: mainTickSteps_def numeral_3_eq_3 mainStep_def tick_def)
  next
    case True
    with None assms show ?thesis
      by (cases "anyAlive (enemies s)")
        (simp_all add: mainTickSteps_def eval_nat_numeral mainStep_def tick_def)
  qed
qed

text \<open>
  When the scan of line 532 finds nobody alive, the count that line 536 tests is below
  the victory threshold: lines 537-540 never run, and the branch prints the defeat.
\<close>

lemma scan_declares_lose:
  assumes "mainInv cfg s" "m_pc (mainThread s) = M_Scan" "\<not> anyAlive (enemies s)"
  shows "mainStep cfg s =
     Some (s\<lparr>screen := screen s @ [YOU_LOSE], gameRunning := False,
             mainThread := (mainThread s)\<lparr>m_pc := M_Stop\<rparr>\<rparr>)"
  using assms by (simp add: mainStep_def mainInv_def finalCount_def)

section \<open>The collision check of a rocket thread\<close>

lemma rocket_collide_pc:
  assumes "rocketStep cfg n s = Some s'" "rt_pc (rocketThreads s ! n) = R_Collide"
  shows "rt_pc (rocketThreads s' ! n) =
       (if list_ex (liveAt (rt_r (rocketThreads s ! n))) (enemies s)
           \<or> offscreen cfg (rt_r (rocketThreads s ! n))
        then R_Finish else R_Test)
     \<and> rt_r (rocketThreads s' ! n) = rt_r (rocketThreads s ! n)
     \<and> (\<not> list_ex (liveAt (rt_r (rocketThreads s ! n))) (enemies s) \<longrightarrow>
          enemies s' = enemies s \<and> destroyedEnemies s' = destroyedEnemies s)
     \<and> (list_ex (liveAt (rt_r (rocketThreads s ! n))) (enemies s) \<longrightarrow>
          destroyedEnemies s' = destroyedEnemies s + 1
          \<and> cleared (enemies s) (enemies s') = 1)"
proof -
  let ?r = "rt_r (rocketThreads s ! n)"
  from assms have n: "n < length (rocketThreads s)"
    by (simp add: rocketStep_def split: if_splits)
  obtain es' hit d' where c: "collisionCheck (enemies s) ?r (destroyedEnemies s) = (es', hit, d')"
    by (cases "collisionCheck (enemies s) ?r (destroyedEnemies s)") auto
  have h: "hit \<longleftrightarrow> list_ex (liveAt ?r) (enemies s)" using collisionCheck_hit_iff [OF c] .
  have m: "\<not> hit \<Longrightarrow> es' = enemies s \<and> d' = destroyedEnemies s"
    using collisionCheck_miss [of ?r "enemies s" "destroyedEnemies s"] c h by simp
  from assms c n have s': "s' = s\<lparr>enemies := es', destroyedEnemies := d',
      rocketThreads := (rocketThreads s)[n := (rocketThreads s ! n)\<lparr>rt_pc :=
        (if hit then R_Finish else if offscreen cfg ?r then R_Finish else R_Test)\<rparr>]\<rparr>"
    by (auto simp: rocketStep_def Let_def)
  from collisionCheck_effect [OF c] h m n show ?thesis
    by (cases hit) (simp_all add: s')
qed

section \<open>A pass of the reload thread\<close>

lemma reloadStep_Lock:
  assumes "reloadStep s = Some s'" "l_pc (reloader s) = L_Lock"
  shows "\<not> batteryMutex s \<and> launchers s' = launchers s
     \<and> (allFull (launchers s) \<longrightarrow> l_pc (reloader s') = L_Wait \<and> \<not> batteryMutex s')
     \<and> (\<not> allFull (launchers s) \<longrightarrow> s' = passStart s)"
  using assms by (auto simp: reloadStep_def Let_def passStart_def split: if_splits)

lemma reloadSleep_step:
  assumes "reloadStep s = Some s'"
  shows "reloadSleep cfg s =
     (if l_pc (reloader s') = L_Sleep then Some (reload_time_ms (settings cfg)) else None)"
  using assms
  by (cases "l_pc (reloader s)")
    (auto simp: reloadStep_def reloadSleep_def Let_def split: if_splits)

lemma tryFire_clears:
  "j < length ls \<Longrightarrow> fst (tryFire ls k) ! j \<Longrightarrow> ls ! j"
  by (cases "nat (chooseLauncher ls k 0) < length ls")
    (auto simp: tryFire_def Let_def nth_list_update split: if_splits)

lemma playerStep_clears:
  assumes "playerStep cfg key s = Some s'" "j < length (launchers s)" "launchers s' ! j"
  shows "launchers s ! j"
proof (cases "p_pc (player s) = P_Key \<and> key = Key_Space")
  case True
  with assms have "s' = fireBattery s" by (simp add: playerStep_def split: if_splits)
  with assms(3) have "fst (tryFire (launchers s) (k_launchers_global s)) ! j"
    by (cases "tryFire (launchers s) (k_launchers_global s)") (simp add: fireBattery_def)
  from tryFire_clears [OF assms(2) this] show ?thesis .
next
  case False
  show ?thesis
  proof (cases "p_pc (player s)")
    case P_Key
    with False assms show ?thesis
      by (cases key) (auto simp: playerStep_def setAim_def split: if_splits)
  qed (use assms in \<open>auto simp: playerStep_def fireLaunch_def fireCreate_def Let_def\<close>)
qed

lemma step_clears:
  assumes "step cfg l s = Some s'" "l \<noteq> T_Reload" "j < length (launchers s)"
    "launchers s' ! j"
  shows "launchers s ! j"
proof (cases l)
  case (T_Spawner x)
  with assms spawnerStep_frame [of cfg x s s'] show ?thesis by simp
next
  case (T_Enemy n)
  with assms enemyStep_frame [of cfg n s s'] show ?thesis by simp
next
  case (T_Rocket n)
  with assms rocketStep_frame [of cfg n s s'] show ?thesis by simp
next
  case T_Reload
  with assms show ?thesis by simp
next
  case (T_Player key)
  with assms playerStep_clears [of cfg key s s' j] show ?thesis by simp
next
  case T_Main
  with assms mainStep_frame [of cfg s s'] show ?thesis by simp
qed

lemma run_gameRunning: "run cfg ls s = Some s' \<Longrightarrow> gameRunning s' \<Longrightarrow> gameRunning s"
proof (induction ls arbitrary: s)
  case Nil
  then show ?case by simp
next
  case (Cons l ls)
  then obtain s1 where s1: "step cfg l s = Some s1" "run cfg ls s1 = Some s'"
    by (auto split: option.splits)
  from Cons.IH [OF s1(2) Cons.prems(2)] step_gameRunning [OF s1(1)] show ?case by simp
qed

text \<open>
  Along any schedule that takes the reload thread out of its loop in a running match,
  the pass has loaded every launcher, from its index on, that was empty at the start.
\<close>

lemma pass_loads_each:
  assumes "batteryInv s" "inPass s" "run cfg ls s = Some s'" "\<not> inPass s'" "gameRunning s'"
    and "nat (l_i (reloader s)) \<le> j" "j < length (launchers s)" "\<not> launchers s ! j"
  shows "j \<in> set (passLoads cfg ls s)"
  using assms
proof (induction ls arbitrary: s)
  case Nil
  then show ?case by simp
next
  case (Cons l ls)
  from Cons.prems(3) obtain s1 where st: "step cfg l s = Some s1" and r1: "run cfg ls s1 = Some s'"
    by (auto split: option.splits)
  from step_batteryInv [OF st Cons.prems(1)] have inv1: "batteryInv s1" .
  have len: "length (launchers s1) = length (launchers s)"
    using step_launchers_length [OF st] .
  from run_gameRunning [OF r1 Cons.prems(5)] have g1: "gameRunning s1" .
  from step_gameRunning [OF st g1] have g: "gameRunning s" .
  from Cons.prems(1) have i0: "0 \<le> l_i (reloader s)"
    and k: "k_launchers_global s = int (length (launchers s))"
    and mu: "batteryMutex s \<longleftrightarrow> l_pc (reloader s) = L_For"
    by (simp_all add: batteryInv_def)
  have pl: "passLoads cfg (l # ls) s = loadsNow l s @ passLoads cfg ls s1"
    using st Cons.prems(2) by simp
  show ?case
  proof (cases "l = T_Reload")
    case False
    have rl: "reloader s1 = reloader s" using step_reloader_frame [OF st False] .
    then have in1: "inPass s1" using Cons.prems(2) by (simp add: inPass_def)
    have e1: "\<not> launchers s1 ! j"
      using step_clears [OF st False Cons.prems(7)] Cons.prems(8) by blast
    from Cons.IH [OF inv1 in1 r1 Cons.prems(4,5) _ _ e1] rl Cons.prems(6,7) len
    have "j \<in> set (passLoads cfg ls s1)" by simp
    with pl show ?thesis by simp
  next
    case l: True
    with st have rs: "reloadStep s = Some s1" by simp
    show ?thesis
    proof (cases "l_pc (reloader s) = L_Sleep")
      case sl: True
      note R = reloadStep_Sleep [OF rs sl]
      from R have in1: "inPass s1" by (simp add: inPass_def)
      show ?thesis
      proof (cases "j = nat (l_i (reloader s))")
        case True
        with Cons.prems(8) sl mu l have "loadsNow l s = [j]" by (simp add: loadsNow_def)
        with pl show ?thesis by simp
      next
        case False
        with Cons.prems(6) i0 R have le: "nat (l_i (reloader s1)) \<le> j" by simp
        from R False Cons.prems(8) have e1: "\<not> launchers s1 ! j" by (simp split: if_splits)
        from Cons.IH [OF inv1 in1 r1 Cons.prems(4,5) le _ e1] len Cons.prems(7)
        have "j \<in> set (passLoads cfg ls s1)" by simp
        with pl show ?thesis by simp
      qed
    next
      case nsl: False
      with Cons.prems(2) have f: "l_pc (reloader s) = L_For" by (simp add: inPass_def)
      note R = reloadStep_For [OF rs f]
      from Cons.prems(6,7) i0 k have ik: "l_i (reloader s) < k_launchers_global s" by linarith
      from R have ls1: "launchers s1 = launchers s" by simp
      show ?thesis
      proof (cases "launchers s ! nat (l_i (reloader s))")
        case True
        with R ik g have n: "l_pc (reloader s1) = L_For" "l_i (reloader s1) = l_i (reloader s) + 1"
          by simp_all
        from True Cons.prems(8) have "j \<noteq> nat (l_i (reloader s))" by blast
        with Cons.prems(6) n i0 have le: "nat (l_i (reloader s1)) \<le> j" by simp
        from n have in1: "inPass s1" by (simp add: inPass_def)
        from Cons.IH [OF inv1 in1 r1 Cons.prems(4,5) le] ls1 Cons.prems(7,8)
        have "j \<in> set (passLoads cfg ls s1)" by simp
        with pl show ?thesis by simp
      next
        case False
        with R ik g have n: "l_pc (reloader s1) = L_Sleep" "l_i (reloader s1) = l_i (reloader s)"
          by simp_all
        from n have in1: "inPass s1" by (simp add: inPass_def)
        from Cons.IH [OF inv1 in1 r1 Cons.prems(4,5)] n ls1 Cons.prems(6,7,8)
        have "j \<in> set (passLoads cfg ls s1)" by simp
        with pl show ?thesis by simp
      qed
    qed
  qed
qed

text \<open>The pass when the reload thread runs alone.\<close>

lemma passEnd_full: "passEnd s (length (launchers s)) =
    s\<lparr>batteryMutex := False, reloader := \<lparr>l_pc = L_Test, l_i = k_launchers_global s\<rparr>\<rparr>"
  by (simp add: passEnd_def)

lemma pass_alone:
  assumes "batteryInv s" "l_pc (reloader s) = L_For" "gameRunning s"
    and "d = length (launchers s) - nat (l_i (reloader s))"
    and "nat (l_i (reloader s)) \<le> length (launchers s)"
  shows "run cfg (replicate (passSteps (drop (nat (l_i (reloader s))) (launchers s))) T_Reload) s
           = Some (passEnd s (nat (l_i (reloader s))))
       \<and> passLoads cfg (replicate (passSteps (drop (nat (l_i (reloader s))) (launchers s)))
            T_Reload) s
           = empties (launchers s) (nat (l_i (reloader s)))"
  using assms
proof (induction d arbitrary: s)
  case 0
  let ?t = "reloader s"
  from "0.prems" have i: "nat (l_i ?t) = length (launchers s)" by simp
  from "0.prems"(1) have i0: "0 \<le> l_i ?t"
    and k: "k_launchers_global s = int (length (launchers s))"
    by (simp_all add: batteryInv_def)
  from i i0 k have ik: "l_i ?t = k_launchers_global s" by linarith
  have st: "reloadStep s = Some (passEnd s (length (launchers s)))"
    using "0.prems"(2) ik by (simp add: reloadStep_def Let_def passEnd_full)
  have "passLoads cfg [T_Reload] s = []"
    using st "0.prems"(2) by (simp add: loadsNow_def inPass_def)
  with st i show ?case by (simp add: empties_def)
next
  case (Suc d)
  let ?t = "reloader s"
  let ?n = "nat (l_i ?t)"
  let ?ls = "launchers s"
  from Suc.prems have n: "?n < length ?ls" by simp
  from Suc.prems(1) have i0: "0 \<le> l_i ?t"
    and k: "k_launchers_global s = int (length ?ls)"
    and mu: "batteryMutex s"
    using Suc.prems(2) by (simp_all add: batteryInv_def)
  from n i0 k have ik: "l_i ?t < k_launchers_global s" by linarith
  have n1: "nat (l_i ?t + 1) = Suc ?n" using i0 by simp
  have dr: "drop ?n ?ls = ?ls ! ?n # drop (Suc ?n) ?ls"
    using Cons_nth_drop_Suc [OF n] by simp
  have up: "[?n..<length ?ls] = ?n # [Suc ?n..<length ?ls]"
    using n by (simp add: upt_conv_Cons)
  from Suc_diff_Suc [OF n] have "length ?ls - ?n = Suc (length ?ls - Suc ?n)" by simp
  then have rp: "replicate (length ?ls - ?n) True = True # replicate (length ?ls - Suc ?n) True"
    by simp
  show ?case
  proof (cases "?ls ! ?n")
    case True
    let ?s1 = "s\<lparr>reloader := ?t\<lparr>l_i := l_i ?t + 1\<rparr>\<rparr>"
    have st: "reloadStep s = Some ?s1"
      using Suc.prems(2,3) ik True by (simp add: reloadStep_def Let_def)
    have inv1: "batteryInv ?s1"
      using reloadStep_batteryInv [OF st Suc.prems(1)] .
    have d1: "d = length (launchers ?s1) - nat (l_i (reloader ?s1))"
      using Suc.prems(4) n1 by simp
    have le1: "nat (l_i (reloader ?s1)) \<le> length (launchers ?s1)"
      using n n1 by simp
    have pc1: "l_pc (reloader ?s1) = L_For" using Suc.prems(2) by simp
    have g1: "gameRunning ?s1" using Suc.prems(3) by simp
    note IH = Suc.IH [OF inv1 pc1 g1 d1 le1]
    have e: "passEnd ?s1 (Suc ?n) = passEnd s ?n"
      using True n by (simp add: passEnd_def take_Suc_conv_app_nth rp)
    have em: "empties ?ls ?n = empties ?ls (Suc ?n)"
      using True up by (simp add: empties_def)
    have ln: "loadsNow T_Reload s = []" using Suc.prems(2) by (simp add: loadsNow_def)
    from IH st dr True e em ln Suc.prems(2) n1 show ?thesis
      by (simp add: inPass_def empties_def)
  next
    case False
    let ?s1 = "s\<lparr>batteryMutex := False, reloader := ?t\<lparr>l_pc := L_Sleep\<rparr>\<rparr>"
    let ?s2 = "s\<lparr>launchers := ?ls[?n := True],
                  reloader := ?t\<lparr>l_pc := L_For, l_i := l_i ?t + 1\<rparr>\<rparr>"
    have st1: "reloadStep s = Some ?s1"
      using Suc.prems(2,3) ik False by (simp add: reloadStep_def Let_def)
    have "reloadStep ?s1 = Some (?s1\<lparr>launchers := ?ls[?n := True], batteryMutex := True,
        reloader := ?t\<lparr>l_pc := L_For, l_i := l_i ?t + 1\<rparr>\<rparr>)"
      using False by (simp add: reloadStep_def Let_def)
    also have "?s1\<lparr>launchers := ?ls[?n := True], batteryMutex := True,
        reloader := ?t\<lparr>l_pc := L_For, l_i := l_i ?t + 1\<rparr>\<rparr> = ?s2"
      using mu by simp
    finally have st2: "reloadStep ?s1 = Some ?s2" .
    have inv2: "batteryInv ?s2"
      using reloadStep_batteryInv [OF st2 reloadStep_batteryInv [OF st1 Suc.prems(1)]] .
    have d2: "d = length (launchers ?s2) - nat (l_i (reloader ?s2))"
      using Suc.prems(4) n1 by simp
    have le2: "nat (l_i (reloader ?s2)) \<le> length (launchers ?s2)"
      using n n1 by simp
    have pc2: "l_pc (reloader ?s2) = L_For" by simp
    have g2: "gameRunning ?s2" using Suc.prems(3) by simp
    note IH = Suc.IH [OF inv2 pc2 g2 d2 le2]
    have e: "passEnd ?s2 (Suc ?n) = passEnd s ?n"
      using n by (simp add: passEnd_def take_Suc_conv_app_nth rp)
    have em: "empties (?ls[?n := True]) (Suc ?n) = empties ?ls (Suc ?n)"
      by (auto simp: empties_def intro!: filter_cong)
    have em2: "empties ?ls ?n = ?n # empties ?ls (Suc ?n)"
      using False up by (simp add: empties_def)
    have ln1: "loadsNow T_Reload s = []" using Suc.prems(2) by (simp add: loadsNow_def)
    have ln2: "loadsNow T_Reload ?s1 = [?n]" using False by (simp add: loadsNow_def)
    have dr2: "drop (Suc ?n) (?ls[?n := True]) = drop (Suc ?n) ?ls" by simp
    have r: "run cfg (T_Reload # T_Reload # xs) s = run cfg xs ?s2" for xs
      using st1 st2 by simp
    have p: "passLoads cfg (T_Reload # T_Reload # xs) s = ?n # passLoads cfg xs ?s2" for xs
      using st1 st2 ln1 ln2 Suc.prems(2) by (simp add: inPass_def)
    from IH dr False e em em2 dr2 n1 r p show ?thesis
      by simp
  qed
qed

section \<open>The thread of a killed entity among the other threads\<close>





















section \<open>The concrete matches, evaluated\<close>

lemmas step_defs = spawnerStep_def enemyStep_def rocketStep_def reloadStep_def playerStep_def
  mainStep_def setAim_def fireBattery_def fireLaunch_def fireCreate_def tryFire_def newRocket_def
  offscreen_def Let_def chooseLauncher.simps signed_divide_int_def thresholds_def finalCount_def

lemmas world_defs = init_def duo_def foe_def shot_def beforeHit_def afterHit_def
  spawnAt_def moves_def fireKeys_def toCollide_def toDeadCell_def overDead_def flownOn_def
  toScan_def scanning_def sleeping_def loadedOne_def fullAgain_def loading_def won_def idle_def
  spent_def

lemmas pass_defs = relock_def toRelock_def firedAsleep_def refired_def passStart_def
  passEnd_def


lemmas race_defs = easy_def mkConfig_def chooseSettings_def EASY_def spawnAt_def moves_def
  grounded_def inLane_def aimed_def killed_def reloadAll_def staleRace_def fireKeys_def init_def

lemma reach_beforeHit: "run duo toCollide (init duo) = Some beforeHit"
  by (simp add: world_defs step_defs eval_nat_numeral)

lemma hit_step: "step duo (T_Rocket 0) beforeHit = Some afterHit"
  by (simp add: world_defs step_defs)

lemma reach_afterHit: "run duo (toCollide @ [T_Rocket 0]) (init duo) = Some afterHit"
  using run_append [of duo toCollide "[T_Rocket 0]" "init duo"] reach_beforeHit hit_step
  by simp

lemma reach_overDead: "run duo toDeadCell (init duo) = Some overDead"
proof -
  have "run duo (fireKeys @ [T_Rocket 1, T_Rocket 1]) afterHit = Some overDead"
    by (simp add: world_defs step_defs)
  with reach_afterHit show ?thesis
    using run_append [of duo "toCollide @ [T_Rocket 0]" "fireKeys @ [T_Rocket 1, T_Rocket 1]"
        "init duo"]
    by (simp add: toDeadCell_def)
qed

lemma reach_scanning: "run duo toScan (init duo) = Some scanning"
proof -
  have "run duo (fireKeys @ [T_Player ERR, T_Reload, T_Reload]) afterHit = Some scanning"
    by (simp add: world_defs step_defs)
  with reach_afterHit show ?thesis
    using run_append [of duo "toCollide @ [T_Rocket 0]"
        "fireKeys @ [T_Player ERR, T_Reload, T_Reload]" "init duo"]
    by (simp add: toScan_def)
qed

lemma reach_fullAgain:
  "run duo (toCollide @ [T_Rocket 0] @ replicate 4 T_Reload) (init duo) = Some fullAgain"
proof -
  have "run duo (replicate 4 T_Reload) afterHit = Some fullAgain"
    by (simp add: world_defs step_defs eval_nat_numeral)
  with reach_afterHit show ?thesis
    using run_append [of duo "toCollide @ [T_Rocket 0]" "replicate 4 T_Reload" "init duo"]
    by simp
qed

lemma reach_refired: "run duo firedAsleep scanning = Some refired"
  by (simp add: world_defs pass_defs step_defs)

lemma reach_relock: "run duo toRelock (init duo) = Some relock"
proof -
  have "run duo (replicate 5 T_Reload @ [T_Player Key_Space, T_Reload]) scanning = Some relock"
    by (simp add: world_defs pass_defs step_defs eval_nat_numeral)
  with reach_scanning show ?thesis
    using run_append [of duo toScan "replicate 5 T_Reload @ [T_Player Key_Space, T_Reload]"
        "init duo"]
    by (simp add: toRelock_def)
qed




lemma reach_idle: "run duo [T_Spawner 0, T_Reload, T_Player ERR] (init duo) = Some idle"
  by (simp add: world_defs step_defs)

lemma reach_loading: "run duo (toCollide @ [T_Rocket 0] @ [T_Main]) (init duo) = Some loading"
proof -
  have "run duo [T_Main] afterHit = Some loading"
    by (simp add: world_defs step_defs)
  with reach_afterHit show ?thesis
    using run_append [of duo "toCollide @ [T_Rocket 0]" "[T_Main]" "init duo"]
    by simp
qed

lemma reach_won:
  "run duo (toCollide @ [T_Rocket 0] @ [T_Main, T_Main, T_Main]) (init duo) = Some won"
proof -
  have "run duo [T_Main, T_Main, T_Main] afterHit = Some won"
    by (simp add: world_defs step_defs)
  with reach_afterHit show ?thesis
    using run_append [of duo "toCollide @ [T_Rocket 0]" "[T_Main, T_Main, T_Main]" "init duo"]
    by simp
qed

text \<open>
  The match on the preset Easy ends with six of twelve enemies destroyed, six on the
  ground, nobody alive, and the defeat message on the screen: the main loop compared the
  count of five that it had loaded before the last hit.
\<close>

lemma race_run:
  "\<exists>s. run easy staleRace (init easy) = Some s
     \<and> screen s = [YOU_LOSE] \<and> destroyedEnemies s = 6 \<and> groundHits s = 6
     \<and> m_destroyed (mainThread s) = 5 \<and> spawnDone s \<and> \<not> anyAlive (enemies s)
     \<and> length (enemies s) = 12 \<and> \<not> gameRunning s"
  by (simp add: race_defs step_defs eval_nat_numeral)


section \<open>The claims\<close>

text \<open>
  Claim C1. Every step clears at most one \<open>alive\<close> flag and sets none; a rocket's step
  adds to \<open>destroyedEnemies\<close> exactly the number of flags it cleared, an enemy's step
  adds that number to \<open>groundHits\<close>, and no other step clears a flag or moves these
  counters. Along any schedule records stay in their places and a cleared flag stays
  cleared, so each entity's flag falls at most once and is counted by one counter, once.
  The two critical sections change nothing when they find no live record (\<open>hit\<close> is
  false, the ground counter is unchanged). When two rockets stand in the cell of the one
  live enemy there, the first check scores and the second changes nothing.
\<close>

theorem alive_cleared_once:
  "(step cfg l s = Some s' \<longrightarrow>
      keptDead (enemies s) (enemies s')
      \<and> cleared (enemies s) (enemies s') \<le> 1
      \<and> destroyedEnemies s' =
          destroyedEnemies s + (if isRocket l then int (cleared (enemies s) (enemies s')) else 0)
      \<and> groundHits s' =
          groundHits s + (if isEnemy l then int (cleared (enemies s) (enemies s')) else 0)
      \<and> (isRocket l \<or> isEnemy l \<or> cleared (enemies s) (enemies s') = 0))
   \<and> (run cfg ls s = Some s'' \<longrightarrow> keptDead (enemies s) (enemies s''))
   \<and> (run cfg ls s = Some s'' \<and> i < length (enemies s) \<and> \<not> alive (enemies s ! i) \<longrightarrow>
        \<not> alive (enemies s'' ! i))
   \<and> (collisionCheck es r d = (es', hit, d') \<longrightarrow>
        cleared es es' = (if hit then 1 else 0) \<and> d' = d + (if hit then 1 else 0)
        \<and> (\<not> hit \<longrightarrow> es' = es))
   \<and> (groundCheck es e g = (es', g') \<longrightarrow>
        int (cleared es es') = g' - g \<and> cleared es es' \<le> 1 \<and> (g' = g \<longrightarrow> es' = es))
   \<and> (collisionCheck es r d = (es', hit, d') \<and> r_x r2 = r_x r \<and> r_y r2 = r_y r
        \<and> length (filter (liveAt r) es) = 1 \<longrightarrow>
        hit \<and> d' = d + 1 \<and> collisionCheck es' r2 d' = (es', False, d'))"
proof -
  have a: "step cfg l s = Some s' \<longrightarrow>
      keptDead (enemies s) (enemies s')
      \<and> cleared (enemies s) (enemies s') \<le> 1
      \<and> destroyedEnemies s' =
          destroyedEnemies s + (if isRocket l then int (cleared (enemies s) (enemies s')) else 0)
      \<and> groundHits s' =
          groundHits s + (if isEnemy l then int (cleared (enemies s) (enemies s')) else 0)
      \<and> (isRocket l \<or> isEnemy l \<or> cleared (enemies s) (enemies s') = 0)"
    using step_flags [of cfg l s s'] by (simp add: flagStep_def)
  have b: "run cfg ls s = Some s'' \<longrightarrow> keptDead (enemies s) (enemies s'')"
    using run_keptDead by blast
  have c: "run cfg ls s = Some s'' \<and> i < length (enemies s) \<and> \<not> alive (enemies s ! i) \<longrightarrow>
        \<not> alive (enemies s'' ! i)"
    using run_keptDead [of cfg ls s s''] keptDead_nth [of "enemies s" "enemies s''" i] by blast
  have d: "collisionCheck es r d = (es', hit, d') \<longrightarrow>
        cleared es es' = (if hit then 1 else 0) \<and> d' = d + (if hit then 1 else 0)
        \<and> (\<not> hit \<longrightarrow> es' = es)"
  proof
    assume h: "collisionCheck es r d = (es', hit, d')"
    have "\<not> hit \<longrightarrow> es' = es"
      using collisionCheck_hit_iff [OF h] collisionCheck_miss [of r es d] h by auto
    with collisionCheck_effect [OF h]
    show "cleared es es' = (if hit then 1 else 0) \<and> d' = d + (if hit then 1 else 0)
        \<and> (\<not> hit \<longrightarrow> es' = es)" by simp
  qed
  have e: "groundCheck es e g = (es', g') \<longrightarrow>
        int (cleared es es') = g' - g \<and> cleared es es' \<le> 1 \<and> (g' = g \<longrightarrow> es' = es)"
    using groundCheck_effect [of es e g es' g'] groundCheck_miss [of es e g es' g'] by blast
  have f: "collisionCheck es r d = (es', hit, d') \<and> r_x r2 = r_x r \<and> r_y r2 = r_y r
        \<and> length (filter (liveAt r) es) = 1 \<longrightarrow>
        hit \<and> d' = d + 1 \<and> collisionCheck es' r2 d' = (es', False, d')"
    using second_rocket_misses [of es r d es' hit d' r2] by blast
  from a b c d e f show ?thesis by blast
qed

theorem alive_cleared_once_witness:
  "step duo (T_Rocket 0) beforeHit = Some afterHit
   \<and> keptDead (enemies beforeHit) (enemies afterHit)
   \<and> cleared (enemies beforeHit) (enemies afterHit) = 1
   \<and> destroyedEnemies afterHit = destroyedEnemies beforeHit + 1
   \<and> groundHits afterHit = groundHits beforeHit
   \<and> run duo [T_Enemy 0, T_Enemy 0] afterHit = Some (descended afterHit 0 21 E_Test)
   \<and> 0 < length (enemies afterHit)
   \<and> \<not> alive (enemies afterHit ! 0)
   \<and> \<not> alive (enemies (descended afterHit 0 21 E_Test) ! 0)
   \<and> collisionCheck [foe 20 True] (shot 1 20) 0 = ([foe 20 False], True, 1)
   \<and> groundCheck [foe 20 True] (foe 22 True) 0 = ([foe 20 False], 1)
   \<and> length (filter (liveAt (shot 1 20)) [foe 20 True]) = 1
   \<and> collisionCheck [foe 20 False] (shot 2 20) 1 = ([foe 20 False], False, 1)"
proof -
  have 1: "step duo (T_Rocket 0) beforeHit = Some afterHit"
    by (simp add: world_defs step_defs)
  have 2: "run duo [T_Enemy 0, T_Enemy 0] afterHit = Some (descended afterHit 0 21 E_Test)"
    by (simp add: world_defs step_defs descended_def)
  have 3: "collisionCheck [foe 20 True] (shot 1 20) 0 = ([foe 20 False], True, 1)"
    by (simp add: foe_def shot_def)
  have 4: "groundCheck [foe 20 True] (foe 22 True) 0 = ([foe 20 False], 1)"
    by (simp add: foe_def)
  have 5: "length (filter (liveAt (shot 1 20)) [foe 20 True]) = 1"
    by (simp add: foe_def shot_def liveAt_def)
  have 6: "0 < length (enemies afterHit)" "\<not> alive (enemies afterHit ! 0)"
    by (simp_all add: world_defs)
  have 7: "r_x (shot 2 20) = r_x (shot 1 20)" "r_y (shot 2 20) = r_y (shot 1 20)"
    by (simp_all add: shot_def)
  have 8: "cleared (enemies beforeHit) (enemies afterHit) = 1"
    by (simp add: world_defs)
  note t1 = alive_cleared_once [of duo "T_Rocket 0" beforeHit afterHit "[]" beforeHit 0
      "[foe 20 True]" "shot 1 20" 0 "[foe 20 False]" True 1 "foe 22 True" 0 1 "shot 2 20"]
  note t2 = alive_cleared_once [of duo "T_Rocket 0" afterHit afterHit "[T_Enemy 0, T_Enemy 0]"
      "descended afterHit 0 21 E_Test" 0
      "[foe 20 True]" "shot 1 20" 0 "[foe 20 False]" True 1 "foe 22 True" 0 1 "shot 2 20"]
  from t1 1 8 have a: "keptDead (enemies beforeHit) (enemies afterHit)
      \<and> destroyedEnemies afterHit = destroyedEnemies beforeHit + 1
      \<and> groundHits afterHit = groundHits beforeHit"
    by simp
  from t2 2 6 have b: "\<not> alive (enemies (descended afterHit 0 21 E_Test) ! 0)"
    by blast
  from t1 3 5 7 have c: "collisionCheck [foe 20 False] (shot 2 20) 1 = ([foe 20 False], False, 1)"
    by blast
  from 1 2 3 4 5 6 8 a b c show ?thesis by blast
qed

text \<open>
  Claim C2. On a tick the victory threshold is tested first: whenever it holds the tick
  prints \<open>YOU_WIN\<close>, also when the ground threshold holds too; the defeat message
  needs the victory test to have failed. A tick prints at most one message, and it
  prints one exactly when it stops the loop. So the loop as a whole prints nothing (the
  player has quit), \<open>YOU_WIN\<close> alone or \<open>YOU_LOSE\<close> alone, and a loop that was
  never told to stop from outside and has ended has printed exactly one of the two. In
  the running system, whatever the other threads do, the screen never holds more than
  one result, a result stops the match, and the steps of the main thread from its first
  load on print what \<open>tick\<close> prints.
\<close>

theorem match_outcome:
  "(d \<ge> (m + 1) sdiv 2 \<longrightarrow> tick m d g sd es = ([YOU_WIN], False))
   \<and> (d < (m + 1) sdiv 2 \<and> g > m sdiv 2 \<longrightarrow> tick m d g sd es = ([YOU_LOSE], False))
   \<and> length (fst (tick m d g sd es)) \<le> 1
   \<and> (snd (tick m d g sd es) \<longleftrightarrow> fst (tick m d g sd es) = [])
   \<and> (mainLoop m obs = Some outs \<longrightarrow> outs = [] \<or> outs = [YOU_WIN] \<or> outs = [YOU_LOSE])
   \<and> (mainLoop m obs = Some outs \<and> list_all obs_running obs \<longrightarrow>
        outs = [YOU_WIN] \<or> outs = [YOU_LOSE])
   \<and> (run cfg ls (init cfg) = Some s \<longrightarrow>
        length (screen s) \<le> 1 \<and> (screen s \<noteq> [] \<longrightarrow> \<not> gameRunning s))
   \<and> (m_pc (mainThread s) = M_LoadD \<longrightarrow>
        (\<exists>s'. run cfg (replicate (mainTickSteps cfg s) T_Main) s = Some s'
           \<and> screen s' = screen s @
               fst (tick (m_enemies (settings cfg)) (destroyedEnemies s) (groundHits s)
                      (spawnDone s) (enemies s))
           \<and> gameRunning s' =
               (gameRunning s \<and> snd (tick (m_enemies (settings cfg)) (destroyedEnemies s)
                      (groundHits s) (spawnDone s) (enemies s)))))"
proof -
  have a: "d \<ge> (m + 1) sdiv 2 \<longrightarrow> tick m d g sd es = ([YOU_WIN], False)"
    by (simp add: tick_def thresholds_def)
  have b: "d < (m + 1) sdiv 2 \<and> g > m sdiv 2 \<longrightarrow> tick m d g sd es = ([YOU_LOSE], False)"
    by (simp add: tick_def thresholds_def)
  have c: "length (fst (tick m d g sd es)) \<le> 1"
    using tick_cases [of m d g sd es] by auto
  have e: "snd (tick m d g sd es) \<longleftrightarrow> fst (tick m d g sd es) = []"
    using tick_cases [of m d g sd es] by auto
  have f: "mainLoop m obs = Some outs \<longrightarrow> outs = [] \<or> outs = [YOU_WIN] \<or> outs = [YOU_LOSE]"
    using mainLoop_cases by blast
  have h: "mainLoop m obs = Some outs \<and> list_all obs_running obs \<longrightarrow>
        outs = [YOU_WIN] \<or> outs = [YOU_LOSE]"
    using mainLoop_cases mainLoop_decided by blast
  have i: "run cfg ls (init cfg) = Some s \<longrightarrow>
        length (screen s) \<le> 1 \<and> (screen s \<noteq> [] \<longrightarrow> \<not> gameRunning s)"
    using run_mainInv [of cfg ls "init cfg" s] mainInv_init [of cfg]
    by (auto simp: mainInv_def)
  have j: "m_pc (mainThread s) = M_LoadD \<longrightarrow>
        (\<exists>s'. run cfg (replicate (mainTickSteps cfg s) T_Main) s = Some s'
           \<and> screen s' = screen s @
               fst (tick (m_enemies (settings cfg)) (destroyedEnemies s) (groundHits s)
                      (spawnDone s) (enemies s))
           \<and> gameRunning s' =
               (gameRunning s \<and> snd (tick (m_enemies (settings cfg)) (destroyedEnemies s)
                      (groundHits s) (spawnDone s) (enemies s))))"
    using main_steps_tick [of s cfg] by blast
  from a b c e f h i j show ?thesis by blast
qed

theorem match_outcome_witness:
  "(6::int) \<ge> (12 + 1) sdiv 2 \<and> tick 12 6 7 False [] = ([YOU_WIN], False)
   \<and> (5::int) < (12 + 1) sdiv 2 \<and> (7::int) > 12 sdiv 2
   \<and> tick 12 5 7 False [] = ([YOU_LOSE], False)
   \<and> mainLoop 12 [\<lparr>obs_running = True, obs_destroyed = 6, obs_ground = 7,
                    obs_spawnDone = False, obs_enemies = []\<rparr>] = Some [YOU_WIN]
   \<and> list_all obs_running [\<lparr>obs_running = True, obs_destroyed = 6, obs_ground = 7,
                    obs_spawnDone = False, obs_enemies = []\<rparr>]
   \<and> run duo (toCollide @ [T_Rocket 0] @ [T_Main, T_Main, T_Main]) (init duo) = Some won
   \<and> screen won = [YOU_WIN] \<and> \<not> gameRunning won
   \<and> m_pc (mainThread loading) = M_LoadD
   \<and> run duo (replicate (mainTickSteps duo loading) T_Main) loading = Some won
   \<and> tick (m_enemies (settings duo)) (destroyedEnemies loading) (groundHits loading)
        (spawnDone loading) (enemies loading) = ([YOU_WIN], False)"
proof -
  note t1 = match_outcome [of 12 6 7 False "[]" "[\<lparr>obs_running = True, obs_destroyed = 6,
      obs_ground = 7, obs_spawnDone = False, obs_enemies = []\<rparr>]" "[YOU_WIN]" duo
      "toCollide @ [T_Rocket 0] @ [T_Main, T_Main, T_Main]" won]
  note t2 = match_outcome [of 12 5 7 False "[]" "[]" "[]" duo "[]" loading]
  have 1: "(6::int) \<ge> (12 + 1) sdiv 2" "(5::int) < (12 + 1) sdiv 2" "(7::int) > 12 sdiv 2"
    by (simp_all add: signed_divide_int_def)
  have 2: "mainLoop 12 [\<lparr>obs_running = True, obs_destroyed = 6, obs_ground = 7,
                    obs_spawnDone = False, obs_enemies = []\<rparr>] = Some [YOU_WIN]"
    by (simp add: tick_def thresholds_def signed_divide_int_def)
  have 3: "screen won = [YOU_WIN]" "m_pc (mainThread loading) = M_LoadD"
    by (simp_all add: world_defs)
  have 4: "run duo (replicate (mainTickSteps duo loading) T_Main) loading = Some won"
    by (simp add: mainTickSteps_def world_defs step_defs eval_nat_numeral)
  have 5: "tick (m_enemies (settings duo)) (destroyedEnemies loading) (groundHits loading)
        (spawnDone loading) (enemies loading) = ([YOU_WIN], False)"
    by (simp add: tick_def thresholds_def signed_divide_int_def world_defs)
  from t1 1 have a: "tick 12 6 7 False [] = ([YOU_WIN], False)" by blast
  from t2 1 have b: "tick 12 5 7 False [] = ([YOU_LOSE], False)" by blast
  from t1 reach_won 3 have c: "\<not> gameRunning won" by simp
  from 1 2 3 4 5 a b c reach_won show ?thesis by simp
qed

text \<open>
  Claim C3. The claim asks for victory exactly when the final count of destroyed
  enemies reaches \<open>(m + 1) / 2\<close>. The loop compares the count it loaded at line 508,
  before it found the pool exhausted at line 532. On the preset Easy the schedule
  \<open>staleRace\<close> ends with six of twelve enemies destroyed, which is the victory
  threshold, with spawning complete and nobody alive, and with the defeat message on the
  screen: the loop had loaded the count five, and the last hit fell between the load
  and the scan. On the final count line 536 would declare victory.
\<close>

theorem stale_count_declares_lose:
  "screen (the (run easy staleRace (init easy))) = [YOU_LOSE]
   \<and> spawnDone (the (run easy staleRace (init easy)))
   \<and> \<not> anyAlive (enemies (the (run easy staleRace (init easy))))
   \<and> destroyedEnemies (the (run easy staleRace (init easy))) = 6
   \<and> (m_enemies (settings easy) + 1) sdiv 2 = 6
   \<and> m_destroyed (mainThread (the (run easy staleRace (init easy)))) = 5
   \<and> finalCount (m_enemies (settings easy))
        (destroyedEnemies (the (run easy staleRace (init easy)))) = YOU_WIN"
proof -
  from race_run obtain s where s: "run easy staleRace (init easy) = Some s"
    "screen s = [YOU_LOSE]" "destroyedEnemies s = 6" "m_destroyed (mainThread s) = 5"
    "spawnDone s" "\<not> anyAlive (enemies s)"
    by blast
  have m: "(m_enemies (settings easy) + 1) sdiv 2 = 6"
    by (simp add: easy_def mkConfig_def chooseSettings_def EASY_def signed_divide_int_def)
  from s m show ?thesis by (simp add: finalCount_def)
qed

text \<open>
  Claim C4. A fire event takes the loaded launcher of lowest index \<open>c\<close>, empties it
  and appends exactly one rocket record and one rocket thread; with no loaded launcher
  it reports no ammunition (\<open>fired\<close> is false) and changes neither the launchers nor
  the rockets. With two loaded launchers, two fire events empty both and add two
  rockets, and a third one adds nothing.
\<close>

theorem fire_consumes_first_loaded:
  assumes "k_launchers_global s = int (length (launchers s))"
  shows "(c < length (launchers s) \<and> launchers s ! c \<and> (\<forall>j < c. \<not> launchers s ! j) \<longrightarrow>
            launchers (fireEvent cfg s) = (launchers s)[c := False]
          \<and> rockets (fireEvent cfg s) =
              rockets s @ [newRocket cfg (nextRocketId s) (currentAim s)]
          \<and> rocketThreads (fireEvent cfg s) = rocketThreads s @
              [\<lparr>rt_r = newRocket cfg (nextRocketId s) (currentAim s), rt_pc = R_Test\<rparr>])
       \<and> ((\<forall>j < length (launchers s). \<not> launchers s ! j) \<longrightarrow>
            tryFire (launchers s) (k_launchers_global s) = (launchers s, False)
          \<and> launchers (fireEvent cfg s) = launchers s
          \<and> rockets (fireEvent cfg s) = rockets s
          \<and> rocketThreads (fireEvent cfg s) = rocketThreads s)
       \<and> (launchers s = [True, True] \<longrightarrow>
            launchers (fireEvent cfg s) = [False, True]
          \<and> launchers (fireEvent cfg (fireEvent cfg s)) = [False, False]
          \<and> length (rockets (fireEvent cfg (fireEvent cfg s))) = length (rockets s) + 2
          \<and> tryFire [False, False] (k_launchers_global s) = ([False, False], False)
          \<and> rockets (fireEvent cfg (fireEvent cfg (fireEvent cfg s))) =
              rockets (fireEvent cfg (fireEvent cfg s))
          \<and> launchers (fireEvent cfg (fireEvent cfg (fireEvent cfg s))) = [False, False])"
proof -
  have a: "c < length (launchers s) \<and> launchers s ! c \<and> (\<forall>j < c. \<not> launchers s ! j) \<longrightarrow>
            launchers (fireEvent cfg s) = (launchers s)[c := False]
          \<and> rockets (fireEvent cfg s) =
              rockets s @ [newRocket cfg (nextRocketId s) (currentAim s)]
          \<and> rocketThreads (fireEvent cfg s) = rocketThreads s @
              [\<lparr>rt_r = newRocket cfg (nextRocketId s) (currentAim s), rt_pc = R_Test\<rparr>]"
    using fireEvent_first [OF assms, of c cfg] by simp
  have b: "(\<forall>j < length (launchers s). \<not> launchers s ! j) \<longrightarrow>
            tryFire (launchers s) (k_launchers_global s) = (launchers s, False)
          \<and> launchers (fireEvent cfg s) = launchers s
          \<and> rockets (fireEvent cfg s) = rockets s
          \<and> rocketThreads (fireEvent cfg s) = rocketThreads s"
    using fireEvent_none [OF assms, of cfg] tryFire_none [OF assms] by simp
  have c: "launchers s = [True, True] \<longrightarrow>
            launchers (fireEvent cfg s) = [False, True]
          \<and> launchers (fireEvent cfg (fireEvent cfg s)) = [False, False]
          \<and> length (rockets (fireEvent cfg (fireEvent cfg s))) = length (rockets s) + 2
          \<and> tryFire [False, False] (k_launchers_global s) = ([False, False], False)
          \<and> rockets (fireEvent cfg (fireEvent cfg (fireEvent cfg s))) =
              rockets (fireEvent cfg (fireEvent cfg s))
          \<and> launchers (fireEvent cfg (fireEvent cfg (fireEvent cfg s))) = [False, False]"
  proof
    assume l: "launchers s = [True, True]"
    let ?s1 = "fireEvent cfg s"
    let ?s2 = "fireEvent cfg ?s1"
    have k: "k_launchers_global s = 2" using assms l by simp
    have e1: "?s1 = s\<lparr>launchers := [False, True],
       nextRocketId := nextRocketId s + 1,
       rockets := rockets s @ [newRocket cfg (nextRocketId s) (currentAim s)],
       rocketThreads := rocketThreads s @
         [\<lparr>rt_r = newRocket cfg (nextRocketId s) (currentAim s), rt_pc = R_Test\<rparr>],
       player := \<lparr>p_pc = P_Test, p_rr = newRocket cfg (nextRocketId s) (currentAim s)\<rparr>\<rparr>"
      using fireEvent_first [OF assms, of 0 cfg] l by simp
    have k1: "k_launchers_global ?s1 = int (length (launchers ?s1))"
      using k e1 by simp
    have l1: "launchers ?s1 = [False, True]" using e1 by simp
    have e2: "launchers ?s2 = [False, False] \<and> length (rockets ?s2) = length (rockets ?s1) + 1"
      using fireEvent_first [OF k1, of 1 cfg] l1 by simp
    have k2: "k_launchers_global ?s2 = int (length (launchers ?s2))"
      using fireEvent_first [OF k1, of 1 cfg] l1 k1 by simp
    have n2: "\<forall>j < length (launchers ?s2). \<not> launchers ?s2 ! j"
      using e2 by (simp add: nth_Cons')
    have e3: "fireEvent cfg ?s2 = ?s2\<lparr>player := (player ?s2)\<lparr>p_pc := P_Test\<rparr>\<rparr>"
      using fireEvent_none [OF k2 n2] .
    have t: "tryFire [False, False] (k_launchers_global s) = ([False, False], False)"
      using tryFire_none [of 2 "[False, False]"] k by (simp add: nth_Cons')
    have r3: "rockets (fireEvent cfg ?s2) = rockets ?s2" by (subst e3) simp
    have l3: "launchers (fireEvent cfg ?s2) = launchers ?s2" by (subst e3) simp
    from l1 e2 e1 t r3 l3
    show "launchers ?s1 = [False, True]
          \<and> launchers ?s2 = [False, False]
          \<and> length (rockets ?s2) = length (rockets s) + 2
          \<and> tryFire [False, False] (k_launchers_global s) = ([False, False], False)
          \<and> rockets (fireEvent cfg ?s2) = rockets ?s2
          \<and> launchers (fireEvent cfg ?s2) = [False, False]"
      by simp
  qed
  from a b c show ?thesis by blast
qed

theorem fire_consumes_first_loaded_witness:
  "k_launchers_global (init duo) = int (length (launchers (init duo)))
   \<and> launchers (init duo) = [True, True]
   \<and> launchers (fireEvent duo (init duo)) = [False, True]
   \<and> rockets (fireEvent duo (init duo)) = [newRocket duo 1 AIM_UP]
   \<and> launchers (fireEvent duo (fireEvent duo (init duo))) = [False, False]
   \<and> length (rockets (fireEvent duo (fireEvent duo (init duo)))) = 2
   \<and> rockets (fireEvent duo (fireEvent duo (fireEvent duo (init duo)))) =
       rockets (fireEvent duo (fireEvent duo (init duo)))
   \<and> launchers ((init duo)\<lparr>launchers := [False, False]\<rparr>) = [False, False]
   \<and> tryFire [False, False] 2 = ([False, False], False)
   \<and> rockets (fireEvent duo ((init duo)\<lparr>launchers := [False, False]\<rparr>)) = []"
proof -
  have k: "k_launchers_global (init duo) = int (length (launchers (init duo)))"
    by (simp add: init_def duo_def)
  have l: "launchers (init duo) = [True, True]"
    by (simp add: init_def duo_def numeral_2_eq_2)
  have k': "k_launchers_global ((init duo)\<lparr>launchers := [False, False]\<rparr>) =
            int (length (launchers ((init duo)\<lparr>launchers := [False, False]\<rparr>)))"
    by (simp add: init_def duo_def)
  have n: "\<forall>j < length (launchers ((init duo)\<lparr>launchers := [False, False]\<rparr>)).
             \<not> launchers ((init duo)\<lparr>launchers := [False, False]\<rparr>) ! j"
    by (simp add: nth_Cons')
  have r: "rockets (init duo) = []" "nextRocketId (init duo) = 1" "currentAim (init duo) = AIM_UP"
    "k_launchers_global (init duo) = 2"
    by (simp_all add: init_def duo_def)
  show ?thesis
    using fire_consumes_first_loaded [OF k, of 0 duo] fire_consumes_first_loaded [OF k', of 0 duo] l n r
    by simp
qed

text \<open>
  Claim C5, as amended. The collision check of a rocket ends the flight exactly when a
  live record stands in the rocket's cell; the kill then succeeds, one flag falls and
  \<open>destroyedEnemies\<close> grows by one. A dead record in the cell does not count as a
  match: the check changes nothing, and the rocket flies on unless it has left the
  field.
\<close>

theorem rocket_stops_on_live_hit:
  "(rocketStep cfg n s = Some s' \<and> rt_pc (rocketThreads s ! n) = R_Collide \<longrightarrow>
       rt_pc (rocketThreads s' ! n) =
         (if list_ex (liveAt (rt_r (rocketThreads s ! n))) (enemies s)
             \<or> offscreen cfg (rt_r (rocketThreads s ! n))
          then R_Finish else R_Test)
     \<and> (list_ex (liveAt (rt_r (rocketThreads s ! n))) (enemies s) \<longrightarrow>
          destroyedEnemies s' = destroyedEnemies s + 1
          \<and> cleared (enemies s) (enemies s') = 1)
     \<and> (\<not> list_ex (liveAt (rt_r (rocketThreads s ! n))) (enemies s) \<longrightarrow>
          enemies s' = enemies s \<and> destroyedEnemies s' = destroyedEnemies s))
   \<and> (rocketStep cfg n s = Some s' \<and> rt_pc (rocketThreads s ! n) = R_Collide
        \<and> list_ex (deadAt (rt_r (rocketThreads s ! n))) (enemies s)
        \<and> \<not> list_ex (liveAt (rt_r (rocketThreads s ! n))) (enemies s)
        \<and> \<not> offscreen cfg (rt_r (rocketThreads s ! n)) \<longrightarrow>
        rt_pc (rocketThreads s' ! n) = R_Test \<and> enemies s' = enemies s
        \<and> destroyedEnemies s' = destroyedEnemies s)"
  using rocket_collide_pc [of cfg n s s'] by auto

theorem rocket_stops_on_live_hit_witness:
  "rocketStep duo 0 beforeHit = Some afterHit
   \<and> rt_pc (rocketThreads beforeHit ! 0) = R_Collide
   \<and> list_ex (liveAt (rt_r (rocketThreads beforeHit ! 0))) (enemies beforeHit)
   \<and> rt_pc (rocketThreads afterHit ! 0) = R_Finish
   \<and> destroyedEnemies afterHit = destroyedEnemies beforeHit + 1
   \<and> cleared (enemies beforeHit) (enemies afterHit) = 1
   \<and> rocketStep duo 1 overDead = Some flownOn
   \<and> rt_pc (rocketThreads overDead ! 1) = R_Collide
   \<and> list_ex (deadAt (rt_r (rocketThreads overDead ! 1))) (enemies overDead)
   \<and> \<not> list_ex (liveAt (rt_r (rocketThreads overDead ! 1))) (enemies overDead)
   \<and> \<not> offscreen duo (rt_r (rocketThreads overDead ! 1))
   \<and> rt_pc (rocketThreads flownOn ! 1) = R_Test
   \<and> enemies flownOn = enemies overDead
   \<and> destroyedEnemies flownOn = destroyedEnemies overDead"
proof -
  note t1 = rocket_stops_on_live_hit [of duo 0 beforeHit afterHit]
  note t2 = rocket_stops_on_live_hit [of duo 1 overDead flownOn]
  have 1: "rocketStep duo 0 beforeHit = Some afterHit"
    "rt_pc (rocketThreads beforeHit ! 0) = R_Collide"
    "list_ex (liveAt (rt_r (rocketThreads beforeHit ! 0))) (enemies beforeHit)"
    using hit_step by (simp_all add: world_defs liveAt_def)
  have 2: "rocketStep duo 1 overDead = Some flownOn"
    "rt_pc (rocketThreads overDead ! 1) = R_Collide"
    "list_ex (deadAt (rt_r (rocketThreads overDead ! 1))) (enemies overDead)"
    "\<not> list_ex (liveAt (rt_r (rocketThreads overDead ! 1))) (enemies overDead)"
    "\<not> offscreen duo (rt_r (rocketThreads overDead ! 1))"
    by (simp_all add: world_defs step_defs liveAt_def deadAt_def)
  from t1 1 have a: "rt_pc (rocketThreads afterHit ! 0) = R_Finish
      \<and> destroyedEnemies afterHit = destroyedEnemies beforeHit + 1
      \<and> cleared (enemies beforeHit) (enemies afterHit) = 1"
    by simp
  from t2 2 have b: "rt_pc (rocketThreads flownOn ! 1) = R_Test
      \<and> enemies flownOn = enemies overDead
      \<and> destroyedEnemies flownOn = destroyedEnemies overDead"
    by blast
  from 1 2 a b show ?thesis by blast
qed

text \<open>
  The claim as stated fails: in a match that starts from \<open>init duo\<close> the second rocket
  reaches the cell of a dead record, its collision check finds the record at its
  position, and the rocket is not ended: its thread goes back to its loop test and its
  record stays active.
\<close>

theorem rocket_passes_dead_cell:
  "run duo toDeadCell (init duo) = Some overDead
   \<and> rt_pc (rocketThreads overDead ! 1) = R_Collide
   \<and> rt_r (rocketThreads overDead ! 1) = shot 2 20
   \<and> enemies overDead = [foe 20 False]
   \<and> e_x (foe 20 False) = r_x (shot 2 20) \<and> e_y (foe 20 False) = r_y (shot 2 20)
   \<and> step duo (T_Rocket 1) overDead = Some flownOn
   \<and> rt_pc (rocketThreads flownOn ! 1) = R_Test
   \<and> rt_pc (rocketThreads flownOn ! 1) \<noteq> R_Finish
   \<and> map active (rockets flownOn) = [True, True]"
  using reach_overDead by (simp add: world_defs step_defs)

text \<open>
  Claim C6. In every state of a match the two counters together count the records whose
  flag is cleared, that number is at most \<open>m\<close>, \<open>spawnedEnemies\<close> is at most
  \<open>m\<close>, and no counter is negative; from any state on, along any schedule, none of
  the three counters decreases.
\<close>

theorem counters_bounded:
  assumes "0 \<le> m_enemies (settings cfg)" and "run cfg ls (init cfg) = Some s"
  shows "destroyedEnemies s + groundHits s = int (dead (enemies s))
     \<and> destroyedEnemies s + groundHits s \<le> m_enemies (settings cfg)
     \<and> spawnedEnemies s \<le> m_enemies (settings cfg)
     \<and> 0 \<le> destroyedEnemies s \<and> 0 \<le> groundHits s \<and> 0 \<le> spawnedEnemies s
     \<and> (run cfg ls' s = Some s' \<longrightarrow>
          destroyedEnemies s \<le> destroyedEnemies s' \<and> groundHits s \<le> groundHits s'
          \<and> spawnedEnemies s \<le> spawnedEnemies s')"
proof -
  from run_spawnInv [OF assms(2) spawnInv_init [OF assms(1)]] have i: "spawnInv cfg s" .
  have "int (dead (enemies s)) \<le> int (length (enemies s))"
    using dead_le_length [of "enemies s"] by simp
  also have "\<dots> \<le> m_enemies (settings cfg)"
    using i by (auto simp: spawnInv_def split: if_splits)
  finally have b: "int (dead (enemies s)) \<le> m_enemies (settings cfg)" .
  from run_countersLe [OF assms(2)] have p:
    "0 \<le> destroyedEnemies s \<and> 0 \<le> groundHits s \<and> 0 \<le> spawnedEnemies s"
    by (simp add: countersLe_def init_def)
  have m: "run cfg ls' s = Some s' \<longrightarrow>
          destroyedEnemies s \<le> destroyedEnemies s' \<and> groundHits s \<le> groundHits s'
          \<and> spawnedEnemies s \<le> spawnedEnemies s'"
    using run_countersLe [of cfg ls' s s'] by (simp add: countersLe_def)
  from i b p m show ?thesis by (simp add: spawnInv_def)
qed

theorem counters_bounded_witness:
  "0 \<le> m_enemies (settings duo)
   \<and> run duo (toCollide @ [T_Rocket 0]) (init duo) = Some afterHit
   \<and> destroyedEnemies afterHit + groundHits afterHit = int (dead (enemies afterHit))
   \<and> dead (enemies afterHit) = 1
   \<and> destroyedEnemies afterHit + groundHits afterHit \<le> m_enemies (settings duo)
   \<and> spawnedEnemies afterHit \<le> m_enemies (settings duo)
   \<and> run duo (moves 0 1) afterHit = Some (descended afterHit 0 21 E_Test)
   \<and> destroyedEnemies afterHit \<le> destroyedEnemies (descended afterHit 0 21 E_Test)
   \<and> groundHits afterHit \<le> groundHits (descended afterHit 0 21 E_Test)
   \<and> spawnedEnemies afterHit \<le> spawnedEnemies (descended afterHit 0 21 E_Test)"
proof -
  have 1: "0 \<le> m_enemies (settings duo)" by (simp add: duo_def)
  have 2: "run duo (moves 0 1) afterHit = Some (descended afterHit 0 21 E_Test)"
    by (simp add: world_defs step_defs descended_def)
  have 3: "dead (enemies afterHit) = 1" by (simp add: world_defs)
  from counters_bounded [OF 1 reach_afterHit, of "moves 0 1" "descended afterHit 0 21 E_Test"]
    1 2 3 reach_afterHit
  show ?thesis by simp
qed

text \<open>
  Claim C7. The reload thread is never blocked: only the thread itself holds the
  battery mutex across steps. Its loop test of line 309 leads to the lock while the
  match is running, and its wait on the condition leads back to the loop test. A pass
  of the reload thread starts at the lock of line 310: when some
  launcher is empty the thread keeps the mutex and sets its index to 0, whatever the
  index was before; when every launcher is loaded it waits on the condition instead and
  changes nothing. At the head of its loop, with the mutex held, the thread leaves the
  launchers as they are: at a loaded launcher it goes on to the next index, at an empty
  one it releases the mutex and asks to sleep for \<open>reload_time_ms\<close> milliseconds
  of the settings, and it leaves the loop only past the last launcher or when the match
  has stopped. No other step of the thread starts a sleep. When it wakes it holds the
  mutex again, loads the launcher it waited for only if that launcher is still empty,
  and goes on to the next index. A step of the reload thread loads at most one launcher,
  and the number of loaded launchers grows by exactly the number of launchers it loaded.
  While it sleeps the mutex is free: a fire event of the player is not blocked.

  Along any schedule, whatever the other threads do, the launchers loaded during one
  pass come in strictly ascending order; and when the schedule takes the thread out of
  its loop in a running match, the pass has loaded every launcher, from its index on,
  that was empty when the schedule began. Running alone from the lock in a running
  match, the thread completes the pass in \<open>1 + passSteps\<close> steps: it loads exactly
  the empty launchers, in ascending order, and leaves every launcher loaded and the
  mutex free; from its loop test it does so in one step more, pass after pass. How long
  a sleep lasts is not part of the state.
\<close>

theorem reload_serial:
  assumes "batteryInv s"
  shows "(l_pc (reloader s) \<noteq> L_Done \<longrightarrow> reloadStep s \<noteq> None)
     \<and> (reloadStep s = Some s' \<and> l_pc (reloader s) = L_Test \<longrightarrow>
            launchers s' = launchers s \<and> batteryMutex s' = batteryMutex s
          \<and> l_pc (reloader s') = (if gameRunning s then L_Lock else L_Done))
     \<and> (reloadStep s = Some s' \<and> l_pc (reloader s) = L_Wait \<longrightarrow>
            launchers s' = launchers s \<and> \<not> batteryMutex s'
          \<and> l_pc (reloader s') = L_Test)
     \<and> (reloadStep s = Some s' \<and> l_pc (reloader s) = L_Lock \<longrightarrow>
            \<not> batteryMutex s \<and> launchers s' = launchers s
          \<and> (allFull (launchers s) \<longrightarrow> l_pc (reloader s') = L_Wait \<and> \<not> batteryMutex s')
          \<and> (\<not> allFull (launchers s) \<longrightarrow>
               l_pc (reloader s') = L_For \<and> l_i (reloader s') = 0 \<and> batteryMutex s'))
     \<and> (reloadStep s = Some s' \<and> l_pc (reloader s) = L_For \<longrightarrow>
            launchers s' = launchers s
          \<and> (l_i (reloader s) < k_launchers_global s \<and> gameRunning s
               \<and> \<not> launchers s ! nat (l_i (reloader s)) \<longrightarrow>
               l_pc (reloader s') = L_Sleep \<and> l_i (reloader s') = l_i (reloader s)
               \<and> \<not> batteryMutex s')
          \<and> (l_i (reloader s) < k_launchers_global s \<and> gameRunning s
               \<and> launchers s ! nat (l_i (reloader s)) \<longrightarrow>
               l_pc (reloader s') = L_For \<and> l_i (reloader s') = l_i (reloader s) + 1)
          \<and> (\<not> (l_i (reloader s) < k_launchers_global s \<and> gameRunning s) \<longrightarrow>
               l_pc (reloader s') = L_Test \<and> \<not> batteryMutex s'))
     \<and> (reloadStep s = Some s' \<and> l_pc (reloader s) = L_Sleep \<longrightarrow>
            \<not> batteryMutex s \<and> batteryMutex s'
          \<and> l_pc (reloader s') = L_For \<and> l_i (reloader s') = l_i (reloader s) + 1
          \<and> launchers s' =
              (if launchers s ! nat (l_i (reloader s)) then launchers s
               else (launchers s)[nat (l_i (reloader s)) := True]))
     \<and> (reloadStep s = Some s' \<longrightarrow>
            reloadSleep cfg s =
              (if l_pc (reloader s') = L_Sleep then Some (reload_time_ms (settings cfg))
               else None))
     \<and> (reloadStep s = Some s' \<longrightarrow>
            loaded (launchers s') = loaded (launchers s) + length (loadsNow T_Reload s)
          \<and> length (loadsNow T_Reload s) \<le> 1
          \<and> length (launchers s') = length (launchers s))
     \<and> (l_pc (reloader s) = L_Sleep \<and> p_pc (player s) = P_Key \<longrightarrow>
            step cfg (T_Player Key_Space) s = Some (fireBattery s))
     \<and> sorted_wrt (<) (passLoads cfg ls s)
     \<and> (\<forall>j \<in> set (passLoads cfg ls s).
            nat (l_i (reloader s)) \<le> j \<and> j < length (launchers s))
     \<and> (inPass s \<and> run cfg ls s = Some s'' \<and> \<not> inPass s'' \<and> gameRunning s'' \<longrightarrow>
            (\<forall>j. nat (l_i (reloader s)) \<le> j \<and> j < length (launchers s)
                  \<and> \<not> launchers s ! j \<longrightarrow> j \<in> set (passLoads cfg ls s)))
     \<and> (l_pc (reloader s) = L_Lock \<and> gameRunning s \<and> \<not> allFull (launchers s) \<longrightarrow>
            run cfg (replicate (1 + passSteps (launchers s)) T_Reload) s = Some (passEnd s 0)
          \<and> passLoads cfg (replicate (passSteps (launchers s)) T_Reload) (passStart s)
              = empties (launchers s) 0)
     \<and> (l_pc (reloader s) = L_Test \<and> gameRunning s \<and> \<not> allFull (launchers s) \<longrightarrow>
            run cfg (replicate (2 + passSteps (launchers s)) T_Reload) s = Some (passEnd s 0))"
proof -
  from assms have mu: "batteryMutex s \<longleftrightarrow> l_pc (reloader s) = L_For"
    by (simp add: batteryInv_def)
  have nb: "l_pc (reloader s) \<noteq> L_Done \<longrightarrow> reloadStep s \<noteq> None"
    using mu by (cases "l_pc (reloader s)") (auto simp: reloadStep_def Let_def)
  have lt: "reloadStep s = Some s' \<and> l_pc (reloader s) = L_Test \<longrightarrow>
            launchers s' = launchers s \<and> batteryMutex s' = batteryMutex s
          \<and> l_pc (reloader s') = (if gameRunning s then L_Lock else L_Done)"
    by (auto simp: reloadStep_def Let_def)
  have lw: "reloadStep s = Some s' \<and> l_pc (reloader s) = L_Wait \<longrightarrow>
            launchers s' = launchers s \<and> \<not> batteryMutex s'
          \<and> l_pc (reloader s') = L_Test"
    by (auto simp: reloadStep_def Let_def split: if_splits)
  have l: "reloadStep s = Some s' \<and> l_pc (reloader s) = L_Lock \<longrightarrow>
            \<not> batteryMutex s \<and> launchers s' = launchers s
          \<and> (allFull (launchers s) \<longrightarrow> l_pc (reloader s') = L_Wait \<and> \<not> batteryMutex s')
          \<and> (\<not> allFull (launchers s) \<longrightarrow>
               l_pc (reloader s') = L_For \<and> l_i (reloader s') = 0 \<and> batteryMutex s')"
    using reloadStep_Lock [of s s'] by (auto simp: passStart_def)
  have a: "reloadStep s = Some s' \<and> l_pc (reloader s) = L_For \<longrightarrow>
            launchers s' = launchers s
          \<and> (l_i (reloader s) < k_launchers_global s \<and> gameRunning s
               \<and> \<not> launchers s ! nat (l_i (reloader s)) \<longrightarrow>
               l_pc (reloader s') = L_Sleep \<and> l_i (reloader s') = l_i (reloader s)
               \<and> \<not> batteryMutex s')
          \<and> (l_i (reloader s) < k_launchers_global s \<and> gameRunning s
               \<and> launchers s ! nat (l_i (reloader s)) \<longrightarrow>
               l_pc (reloader s') = L_For \<and> l_i (reloader s') = l_i (reloader s) + 1)
          \<and> (\<not> (l_i (reloader s) < k_launchers_global s \<and> gameRunning s) \<longrightarrow>
               l_pc (reloader s') = L_Test \<and> \<not> batteryMutex s')"
    using reloadStep_For [of s s'] by blast
  have b: "reloadStep s = Some s' \<and> l_pc (reloader s) = L_Sleep \<longrightarrow>
            \<not> batteryMutex s \<and> batteryMutex s'
          \<and> l_pc (reloader s') = L_For \<and> l_i (reloader s') = l_i (reloader s) + 1
          \<and> launchers s' =
              (if launchers s ! nat (l_i (reloader s)) then launchers s
               else (launchers s)[nat (l_i (reloader s)) := True])"
    using reloadStep_Sleep [of s s'] by blast
  have w: "reloadStep s = Some s' \<longrightarrow>
            reloadSleep cfg s =
              (if l_pc (reloader s') = L_Sleep then Some (reload_time_ms (settings cfg))
               else None)"
    using reloadSleep_step [of s s' cfg] by blast
  have c: "reloadStep s = Some s' \<longrightarrow>
            loaded (launchers s') = loaded (launchers s) + length (loadsNow T_Reload s)
          \<and> length (loadsNow T_Reload s) \<le> 1
          \<and> length (launchers s') = length (launchers s)"
    using reloadStep_loaded [OF _ assms, of s'] step_launchers_length [of cfg T_Reload s s']
    by (simp add: loadsNow_def)
  have d: "l_pc (reloader s) = L_Sleep \<and> p_pc (player s) = P_Key \<longrightarrow>
            step cfg (T_Player Key_Space) s = Some (fireBattery s)"
    using assms by (simp add: batteryInv_def playerStep_def)
  have e: "inPass s \<and> run cfg ls s = Some s'' \<and> \<not> inPass s'' \<and> gameRunning s'' \<longrightarrow>
            (\<forall>j. nat (l_i (reloader s)) \<le> j \<and> j < length (launchers s)
                  \<and> \<not> launchers s ! j \<longrightarrow> j \<in> set (passLoads cfg ls s))"
    using pass_loads_each [OF assms, of cfg ls s''] by blast
  have f: "l_pc (reloader s) = L_Lock \<and> gameRunning s \<and> \<not> allFull (launchers s) \<longrightarrow>
            run cfg (replicate (1 + passSteps (launchers s)) T_Reload) s = Some (passEnd s 0)
          \<and> passLoads cfg (replicate (passSteps (launchers s)) T_Reload) (passStart s)
              = empties (launchers s) 0"
  proof
    assume h: "l_pc (reloader s) = L_Lock \<and> gameRunning s \<and> \<not> allFull (launchers s)"
    with assms have mu: "\<not> batteryMutex s" by (simp add: batteryInv_def)
    from h mu have st: "reloadStep s = Some (passStart s)"
      by (simp add: reloadStep_def Let_def passStart_def)
    from reloadStep_batteryInv [OF st assms] have inv: "batteryInv (passStart s)" .
    from pass_alone [OF inv, of _ cfg] h
    have p: "run cfg (replicate (passSteps (launchers s)) T_Reload) (passStart s)
               = Some (passEnd (passStart s) 0)
           \<and> passLoads cfg (replicate (passSteps (launchers s)) T_Reload) (passStart s)
               = empties (launchers s) 0"
      by (simp add: passStart_def)
    have "passEnd (passStart s) 0 = passEnd s 0" by (simp add: passEnd_def passStart_def)
    with p st show "run cfg (replicate (1 + passSteps (launchers s)) T_Reload) s = Some (passEnd s 0)
          \<and> passLoads cfg (replicate (passSteps (launchers s)) T_Reload) (passStart s)
              = empties (launchers s) 0"
      by simp
  qed
  have f2: "l_pc (reloader s) = L_Test \<and> gameRunning s \<and> \<not> allFull (launchers s) \<longrightarrow>
            run cfg (replicate (2 + passSteps (launchers s)) T_Reload) s = Some (passEnd s 0)"
  proof
    assume h: "l_pc (reloader s) = L_Test \<and> gameRunning s \<and> \<not> allFull (launchers s)"
    let ?s1 = "s\<lparr>reloader := (reloader s)\<lparr>l_pc := L_Lock\<rparr>\<rparr>"
    from h mu have m0: "\<not> batteryMutex s" by simp
    from h have st: "reloadStep s = Some ?s1" by (simp add: reloadStep_def Let_def)
    from h m0 have st1: "reloadStep ?s1 = Some (passStart s)"
      by (simp add: reloadStep_def Let_def passStart_def)
    from reloadStep_batteryInv [OF st1 reloadStep_batteryInv [OF st assms]]
    have inv: "batteryInv (passStart s)" .
    from pass_alone [OF inv, of _ cfg] h
    have p: "run cfg (replicate (passSteps (launchers s)) T_Reload) (passStart s)
               = Some (passEnd (passStart s) 0)"
      by (simp add: passStart_def)
    have "passEnd (passStart s) 0 = passEnd s 0" by (simp add: passEnd_def passStart_def)
    with p st st1
    show "run cfg (replicate (2 + passSteps (launchers s)) T_Reload) s = Some (passEnd s 0)"
      by simp
  qed
  note ps = passLoads_sorted [OF assms, of cfg ls]
  show ?thesis
    by (rule conjI [OF nb], rule conjI [OF lt], rule conjI [OF lw],
        rule conjI [OF l], rule conjI [OF a], rule conjI [OF b], rule conjI [OF w],
        rule conjI [OF c], rule conjI [OF d], rule conjI [OF ps [THEN conjunct1]],
        rule conjI [OF ps [THEN conjunct2]], rule conjI [OF e], rule conjI [OF f], rule f2)
qed

theorem reload_serial_witness:
  "batteryInv scanning \<and> batteryInv sleeping \<and> batteryInv fullAgain \<and> batteryInv relock
   \<and> run duo toScan (init duo) = Some scanning
   \<and> reloadStep scanning = Some sleeping
   \<and> l_pc (reloader scanning) = L_For \<and> l_i (reloader scanning) < k_launchers_global scanning
   \<and> gameRunning scanning \<and> \<not> launchers scanning ! nat (l_i (reloader scanning))
   \<and> l_pc (reloader sleeping) = L_Sleep \<and> \<not> batteryMutex sleeping
   \<and> launchers sleeping = launchers scanning
   \<and> reloadSleep duo scanning = Some 100 \<and> reload_time_ms (settings duo) = 100
   \<and> reloadStep sleeping = Some loadedOne
   \<and> reloadSleep duo sleeping = None
   \<and> batteryMutex loadedOne \<and> l_i (reloader loadedOne) = l_i (reloader sleeping) + 1
   \<and> launchers sleeping = [False, False] \<and> launchers loadedOne = [True, False]
   \<and> loaded (launchers loadedOne) = loaded (launchers sleeping) + 1
   \<and> p_pc (player sleeping) = P_Key
   \<and> step duo (T_Player Key_Space) sleeping = Some (fireBattery sleeping)
   \<and> reloadStep fullAgain = Some (fullAgain\<lparr>reloader := \<lparr>l_pc = L_For, l_i = 2\<rparr>\<rparr>)
   \<and> launchers fullAgain ! nat (l_i (reloader fullAgain))
   \<and> passLoads duo (replicate 5 T_Reload) scanning = [0, 1]
   \<and> sorted_wrt (<) (passLoads duo (replicate 5 T_Reload) scanning)
   \<and> run duo firedAsleep scanning = Some refired
   \<and> inPass scanning \<and> \<not> inPass refired \<and> gameRunning refired
   \<and> launchers refired = [False, True]
   \<and> passLoads duo firedAsleep scanning = [0, 1]
   \<and> 0 \<in> set (passLoads duo firedAsleep scanning)
   \<and> 1 \<in> set (passLoads duo firedAsleep scanning)
   \<and> run duo toRelock (init duo) = Some relock
   \<and> l_pc (reloader relock) = L_Lock \<and> l_i (reloader relock) = 2
   \<and> launchers relock = [False, True] \<and> \<not> allFull (launchers relock)
   \<and> reloadStep relock = Some (passStart relock)
   \<and> l_pc (reloader (passStart relock)) = L_For \<and> l_i (reloader (passStart relock)) = 0
   \<and> batteryMutex (passStart relock)
   \<and> run duo (replicate 5 T_Reload) relock = Some (passEnd relock 0)
   \<and> launchers (passEnd relock 0) = [True, True]
   \<and> l_pc (reloader (passEnd relock 0)) = L_Test
   \<and> passLoads duo (replicate 4 T_Reload) (passStart relock) = [0]
   \<and> batteryInv refired \<and> l_pc (reloader refired) = L_Test \<and> l_i (reloader refired) = 2
   \<and> reloadStep refired = Some relock
   \<and> run duo (replicate 6 T_Reload) refired = Some (passEnd refired 0)
   \<and> launchers (passEnd refired 0) = [True, True]"
proof -
  have i: "batteryInv scanning" "batteryInv sleeping" "batteryInv fullAgain" "batteryInv relock"
    "batteryInv refired"
    by (simp_all add: batteryInv_def world_defs pass_defs)
  note t6 = reload_serial [OF i(5), of relock duo "[]" refired]
  have 10: "l_pc (reloader refired) = L_Test" "l_i (reloader refired) = 2"
    "reloadStep refired = Some relock" "\<not> allFull (launchers refired)"
    "passSteps (launchers refired) = 4" "launchers (passEnd refired 0) = [True, True]"
    by (simp_all add: world_defs pass_defs step_defs)
  have 11: "gameRunning refired" by (simp add: world_defs pass_defs)
  from t6 10 11 have g: "run duo (replicate 6 T_Reload) refired = Some (passEnd refired 0)"
    by simp
  note t1 = reload_serial [OF i(1), of sleeping duo "replicate 5 T_Reload" refired]
  note t2 = reload_serial [OF i(2), of loadedOne duo "[]" refired]
  note t3 = reload_serial [OF i(3), of "fullAgain\<lparr>reloader := \<lparr>l_pc = L_For, l_i = 2\<rparr>\<rparr>" duo "[]"
      refired]
  note t4 = reload_serial [OF i(1), of sleeping duo firedAsleep refired]
  note t5 = reload_serial [OF i(4), of "passStart relock" duo "[]" refired]
  have 1: "reloadStep scanning = Some sleeping" "l_pc (reloader scanning) = L_For"
    "l_i (reloader scanning) < k_launchers_global scanning" "gameRunning scanning"
    "\<not> launchers scanning ! nat (l_i (reloader scanning))"
    by (simp_all add: world_defs step_defs)
  have 2: "reloadStep sleeping = Some loadedOne" "l_pc (reloader sleeping) = L_Sleep"
    "p_pc (player sleeping) = P_Key" "launchers sleeping = [False, False]"
    "launchers loadedOne = [True, False]"
    by (simp_all add: world_defs step_defs)
  have 3: "reloadStep fullAgain = Some (fullAgain\<lparr>reloader := \<lparr>l_pc = L_For, l_i = 2\<rparr>\<rparr>)"
    "launchers fullAgain ! nat (l_i (reloader fullAgain))"
    by (simp_all add: world_defs step_defs)
  have 4: "passLoads duo (replicate 5 T_Reload) scanning = [0, 1]"
    by (simp add: world_defs step_defs eval_nat_numeral inPass_def loadsNow_def)
  have 5: "loaded (launchers loadedOne) = loaded (launchers sleeping) + 1"
    by (simp add: loaded_def world_defs)
  have 6: "inPass scanning" "\<not> inPass refired" "gameRunning refired"
    "launchers refired = [False, True]" "launchers scanning = [False, False]"
    "l_i (reloader scanning) = 0" "reload_time_ms (settings duo) = 100"
    by (simp_all add: inPass_def world_defs pass_defs)
  have 7: "passLoads duo firedAsleep scanning = [0, 1]"
    by (simp add: world_defs pass_defs step_defs inPass_def loadsNow_def)
  have 8: "l_pc (reloader relock) = L_Lock" "l_i (reloader relock) = 2"
    "launchers relock = [False, True]" "\<not> allFull (launchers relock)" "gameRunning relock"
    "reloadStep relock = Some (passStart relock)"
    "launchers (passEnd relock 0) = [True, True]" "l_pc (reloader (passEnd relock 0)) = L_Test"
    by (simp_all add: world_defs pass_defs step_defs)
  have 9: "passSteps (launchers relock) = 4" "empties (launchers relock) 0 = [0]"
    by (simp_all add: world_defs pass_defs empties_def upt_rec)
  from t1 1 6 have a: "\<not> batteryMutex sleeping \<and> launchers sleeping = launchers scanning
      \<and> reloadSleep duo scanning = Some 100
      \<and> sorted_wrt (<) (passLoads duo (replicate 5 T_Reload) scanning)"
    by simp
  from t2 2 have b: "batteryMutex loadedOne
      \<and> l_i (reloader loadedOne) = l_i (reloader sleeping) + 1
      \<and> reloadSleep duo sleeping = None
      \<and> step duo (T_Player Key_Space) sleeping = Some (fireBattery sleeping)"
    by simp
  from t3 3 have c: "launchers (fullAgain\<lparr>reloader := \<lparr>l_pc = L_For, l_i = 2\<rparr>\<rparr>) =
      launchers fullAgain"
    by simp
  from t4 6 reach_refired have d: "0 \<in> set (passLoads duo firedAsleep scanning)
      \<and> 1 \<in> set (passLoads duo firedAsleep scanning)"
    by simp
  from t5 8 have e: "l_pc (reloader (passStart relock)) = L_For
      \<and> l_i (reloader (passStart relock)) = 0 \<and> batteryMutex (passStart relock)"
    by simp
  from t5 8 9 have f: "run duo (replicate 5 T_Reload) relock = Some (passEnd relock 0)
      \<and> passLoads duo (replicate 4 T_Reload) (passStart relock) = [0]"
    by simp
  from i 1 2 3 4 5 6 7 8 10 a b c d e f g reach_scanning reach_refired reach_relock
  show ?thesis by simp
qed

text \<open>
  Claim C8. The battery starts with each of its \<open>k\<close> launchers loaded. In every state
  of a match in which no rocket has been fired yet every launcher is still loaded, so
  the battery section of a fire event finds launcher 0, empties it and reports success,
  and the fire event appends the first rocket. The presets have 3, 5 and 8 launchers;
  the theorem needs at least one.
\<close>

theorem battery_starts_loaded:
  assumes "1 \<le> k_launchers (settings cfg)"
  shows "launchers (init cfg) = replicate (nat (k_launchers (settings cfg))) True
     \<and> (\<forall>i < nat (k_launchers (settings cfg)). launchers (init cfg) ! i)
     \<and> (run cfg ls (init cfg) = Some s \<and> rockets s = [] \<and> p_pc (player s) \<noteq> P_Launch \<longrightarrow>
          launchers s = replicate (nat (k_launchers (settings cfg))) True
          \<and> tryFire (launchers s) (k_launchers_global s) = ((launchers s)[0 := False], True)
          \<and> launchers (fireEvent cfg s) = (launchers s)[0 := False]
          \<and> rockets (fireEvent cfg s) = [newRocket cfg (nextRocketId s) (currentAim s)])"
proof -
  have a: "launchers (init cfg) = replicate (nat (k_launchers (settings cfg))) True"
    by (simp add: init_def)
  have b: "\<forall>i < nat (k_launchers (settings cfg)). launchers (init cfg) ! i"
    by (simp add: init_def)
  have c: "run cfg ls (init cfg) = Some s \<and> rockets s = [] \<and> p_pc (player s) \<noteq> P_Launch \<longrightarrow>
          launchers s = replicate (nat (k_launchers (settings cfg))) True
          \<and> tryFire (launchers s) (k_launchers_global s) = ((launchers s)[0 := False], True)
          \<and> launchers (fireEvent cfg s) = (launchers s)[0 := False]
          \<and> rockets (fireEvent cfg s) = [newRocket cfg (nextRocketId s) (currentAim s)]"
  proof
    assume h: "run cfg ls (init cfg) = Some s \<and> rockets s = [] \<and> p_pc (player s) \<noteq> P_Launch"
    have k0: "1 \<le> k_launchers_global (init cfg)" using assms by (simp add: init_def)
    have b0: "batteryInv (init cfg)" using assms by (intro batteryInv_init) simp
    from h have r0: "run cfg ls (init cfg) = Some s" by simp
    have k1: "k_launchers_global (init cfg) = k_launchers (settings cfg)"
      by (simp add: init_def)
    from run_firstInv [OF r0 firstInv_init b0 k0] k1
    have i: "firstInv s" "batteryInv s" "k_launchers_global s = k_launchers (settings cfg)"
      by simp_all
    from i(1) h have l: "list_all (\<lambda>b. b) (launchers s)" by (simp add: firstInv_def unfired_def)
    from i have kl: "k_launchers_global s = int (length (launchers s))" "1 \<le> k_launchers_global s"
      using assms by (simp_all add: batteryInv_def)
    from l kl i(3) have r: "launchers s = replicate (nat (k_launchers (settings cfg))) True"
      by (simp add: list_all_id_replicate)
    have t: "tryFire (launchers s) (k_launchers_global s) = ((launchers s)[0 := False], True)"
      using tryFire_all_loaded [OF l kl] .
    from kl l have z: "0 < length (launchers s)" "launchers s ! 0" "\<forall>j<0. \<not> launchers s ! j"
      by (cases "launchers s"; simp)+
    from fireEvent_first [OF kl(1) z, of cfg] h r t
    show "launchers s = replicate (nat (k_launchers (settings cfg))) True
          \<and> tryFire (launchers s) (k_launchers_global s) = ((launchers s)[0 := False], True)
          \<and> launchers (fireEvent cfg s) = (launchers s)[0 := False]
          \<and> rockets (fireEvent cfg s) = [newRocket cfg (nextRocketId s) (currentAim s)]"
      by simp
  qed
  from a b c show ?thesis by blast
qed

theorem battery_starts_loaded_witness:
  "1 \<le> k_launchers (settings duo)
   \<and> launchers (init duo) = [True, True]
   \<and> run duo [T_Spawner 0, T_Reload, T_Player ERR] (init duo) = Some idle
   \<and> rockets idle = [] \<and> p_pc (player idle) = P_Key
   \<and> launchers idle = [True, True]
   \<and> tryFire (launchers idle) (k_launchers_global idle) = ([False, True], True)
   \<and> launchers (fireEvent duo idle) = [False, True]
   \<and> rockets (fireEvent duo idle) = [newRocket duo 1 AIM_UP]"
proof -
  have 1: "1 \<le> k_launchers (settings duo)" by (simp add: duo_def)
  have 2: "rockets idle = []" "p_pc (player idle) = P_Key" "p_pc (player idle) \<noteq> P_Launch"
    "nextRocketId idle = 1" "currentAim idle = AIM_UP"
    by (simp_all add: world_defs)
  have 3: "replicate (nat (k_launchers (settings duo))) True = [True, True]"
    by (simp add: duo_def numeral_2_eq_2)
  note t = battery_starts_loaded [OF 1, of "[T_Spawner 0, T_Reload, T_Player ERR]" idle]
  have h: "run duo [T_Spawner 0, T_Reload, T_Player ERR] (init duo) = Some idle
      \<and> rockets idle = [] \<and> p_pc (player idle) \<noteq> P_Launch"
    using reach_idle 2 by simp
  have a0: "launchers (init duo) = replicate (nat (k_launchers (settings duo))) True"
    using t by (rule conjunct1)
  have a1: "launchers idle = replicate (nat (k_launchers (settings duo))) True
      \<and> tryFire (launchers idle) (k_launchers_global idle) = ((launchers idle)[0 := False], True)
      \<and> launchers (fireEvent duo idle) = (launchers idle)[0 := False]
      \<and> rockets (fireEvent duo idle) =
          [newRocket duo (nextRocketId idle) (currentAim idle)]"
    using t [THEN conjunct2, THEN conjunct2, THEN mp, OF h] .
  from a0 a1 have a: "launchers (init duo) = replicate (nat (k_launchers (settings duo))) True
      \<and> launchers idle = replicate (nat (k_launchers (settings duo))) True"
    by blast
  then have b: "launchers (init duo) = [True, True]" "launchers idle = [True, True]"
    by (simp_all only: 3)
  from a1 have "tryFire (launchers idle) (k_launchers_global idle) =
      ((launchers idle)[0 := False], True)"
    "launchers (fireEvent duo idle) = (launchers idle)[0 := False]"
    "rockets (fireEvent duo idle) = [newRocket duo (nextRocketId idle) (currentAim idle)]"
    by blast+
  then have c: "tryFire (launchers idle) (k_launchers_global idle) = ([False, True], True)"
    "launchers (fireEvent duo idle) = [False, True]"
    "rockets (fireEvent duo idle) = [newRocket duo 1 AIM_UP]"
    by (simp_all add: b 2)
  from 1 2 b c reach_idle show ?thesis by simp
qed




text \<open>
  Claim C10. Along any schedule the rocket list only grows: the records of the start
  are still there, in their places, and no step has the effect of \<open>removeRocketById\<close>
  on a record of the list (the model of the threads never calls it, as the source never
  does). From the start of a match the length of the list is the number of successful
  fire events, less the one whose rocket the player thread is about to push while it
  stands between its battery section and the push; whenever the player thread is
  anywhere else the two numbers are equal. A rocket thread that ends marks its record
  inactive and leaves it in the list.
\<close>

theorem rockets_never_removed:
  "(run cfg ls s = Some s' \<longrightarrow>
      length (rockets s) \<le> length (rockets s')
      \<and> take (length (rockets s)) (map r_id (rockets s')) = map r_id (rockets s)
      \<and> (\<forall>i \<in> r_id ` set (rockets s). rockets s' \<noteq> removeRocketById i (rockets s)))
   \<and> (run cfg ls (init cfg) = Some s' \<longrightarrow>
        length (rockets s') + pending s' = firesIn cfg ls (init cfg)
        \<and> (p_pc (player s') \<noteq> P_Launch \<longrightarrow>
             length (rockets s') = firesIn cfg ls (init cfg)))
   \<and> length (markInactive rs r) = length rs
   \<and> map r_id (markInactive rs r) = map r_id rs
   \<and> (r_id r \<in> r_id ` set rs \<longrightarrow>
        (\<exists>gr \<in> set (markInactive rs r). r_id gr = r_id r \<and> \<not> active gr))"
proof -
  have a: "run cfg ls s = Some s' \<longrightarrow>
      length (rockets s) \<le> length (rockets s')
      \<and> take (length (rockets s)) (map r_id (rockets s')) = map r_id (rockets s)
      \<and> (\<forall>i \<in> r_id ` set (rockets s). rockets s' \<noteq> removeRocketById i (rockets s))"
  proof
    assume r: "run cfg ls s = Some s'"
    from run_rockets [OF r] have k: "rocketsKept (rockets s) (rockets s')" by simp
    from rocketsKept_length [OF k] have l: "length (rockets s) \<le> length (rockets s')" .
    have "\<forall>i \<in> r_id ` set (rockets s). rockets s' \<noteq> removeRocketById i (rockets s)"
    proof
      fix i assume "i \<in> r_id ` set (rockets s)"
      from removeRocketById_shrinks [OF this] l
      show "rockets s' \<noteq> removeRocketById i (rockets s)" by auto
    qed
    with k l show "length (rockets s) \<le> length (rockets s')
      \<and> take (length (rockets s)) (map r_id (rockets s')) = map r_id (rockets s)
      \<and> (\<forall>i \<in> r_id ` set (rockets s). rockets s' \<noteq> removeRocketById i (rockets s))"
      by (simp add: rocketsKept_def)
  qed
  have b: "run cfg ls (init cfg) = Some s' \<longrightarrow>
        length (rockets s') + pending s' = firesIn cfg ls (init cfg)
        \<and> (p_pc (player s') \<noteq> P_Launch \<longrightarrow>
             length (rockets s') = firesIn cfg ls (init cfg))"
  proof
    assume r: "run cfg ls (init cfg) = Some s'"
    from run_rockets [OF r]
    show "length (rockets s') + pending s' = firesIn cfg ls (init cfg)
        \<and> (p_pc (player s') \<noteq> P_Launch \<longrightarrow>
             length (rockets s') = firesIn cfg ls (init cfg))"
      by (auto simp: pending_def init_def)
  qed
  from a b markInactive_marks [of r rs] show ?thesis by simp
qed

theorem rockets_never_removed_witness:
  "run duo [T_Rocket 0] afterHit = Some spent
   \<and> rockets afterHit = [shot 1 20]
   \<and> rockets spent = markInactive (rockets afterHit) (shot 1 20)
   \<and> length (rockets afterHit) \<le> length (rockets spent)
   \<and> map r_id (rockets spent) = [1]
   \<and> map active (rockets spent) = [False]
   \<and> removeRocketById 1 (rockets afterHit) = []
   \<and> rockets spent \<noteq> removeRocketById 1 (rockets afterHit)
   \<and> run duo (toCollide @ [T_Rocket 0]) (init duo) = Some afterHit
   \<and> p_pc (player afterHit) \<noteq> P_Launch
   \<and> firesIn duo (toCollide @ [T_Rocket 0]) (init duo) = 1
   \<and> length (rockets afterHit) = firesIn duo (toCollide @ [T_Rocket 0]) (init duo)"
proof -
  note t1 = rockets_never_removed [of duo "[T_Rocket 0]" afterHit spent "rockets afterHit"
      "shot 1 20"]
  note t2 = rockets_never_removed [of duo "toCollide @ [T_Rocket 0]" "init duo" afterHit
      "rockets afterHit" "shot 1 20"]
  have 1: "run duo [T_Rocket 0] afterHit = Some spent"
    by (simp add: world_defs step_defs)
  have 2: "rockets afterHit = [shot 1 20]" "p_pc (player afterHit) \<noteq> P_Launch"
    "rockets spent = markInactive (rockets afterHit) (shot 1 20)"
    "map r_id (rockets spent) = [1]" "map active (rockets spent) = [False]"
    "removeRocketById 1 (rockets afterHit) = []"
    by (simp_all add: world_defs removeRocketById_def)
  have 3: "(1::int) \<in> r_id ` set (rockets afterHit)"
    by (simp add: world_defs)
  from t1 1 3 have a: "length (rockets afterHit) \<le> length (rockets spent)
      \<and> rockets spent \<noteq> removeRocketById 1 (rockets afterHit)"
    by blast
  from t2 reach_afterHit 2 have b:
    "length (rockets afterHit) = firesIn duo (toCollide @ [T_Rocket 0]) (init duo)"
    by blast
  with 2 have c: "firesIn duo (toCollide @ [T_Rocket 0]) (init duo) = 1" by simp
  from 1 2 a b c reach_afterHit show ?thesis by simp
qed

end
